theory Spec2Isabelle
  imports Complex_Main
begin

section \<open>Silence removal: \<open>core/cleaner.py\<close>\<close>

text \<open>
  \<open>remove_video_silence\<close> reads the speech segments of the transcription (each with a
  \<open>start\<close> and an \<open>end\<close> in seconds) and the duration of the video, collects the silent
  stretches longer than \<open>gap_threshold\<close> in \<open>segments_to_delete\<close>, turns them into
  \<open>segments_to_keep\<close> and builds the \<open>filter_complex\<close> argument of ffmpeg from those.

  Times are Python floats in the source; they are modelled as real numbers. A segment is
  the pair of its \<open>start\<close> and its \<open>end\<close>.
\<close>

type_synonym interval = "real \<times> real"

text \<open>One segment lies before another when it ends no later than the other starts.\<close>

abbreviation before :: "interval \<Rightarrow> interval \<Rightarrow> bool" where
  "before a b \<equiv> snd a \<le> fst b"

text \<open>
  The loop of lines 51 to 54, over the segments after the first one. The state is the
  list \<open>segments_to_delete\<close> and \<open>previous_end\<close>.
\<close>

fun delete_loop :: "real \<Rightarrow> interval list \<Rightarrow> interval list \<times> real \<Rightarrow> interval list \<times> real" where
  "delete_loop gap_threshold [] (dels, previous_end) = (dels, previous_end)"
| "delete_loop gap_threshold (segment # segments) (dels, previous_end) =
     delete_loop gap_threshold segments
       (if fst segment - previous_end > gap_threshold
        then dels @ [(previous_end, fst segment)] else dels,
        snd segment)"

text \<open>
  Lines 36 to 58. \<open>None\<close> is the early return of line 43 (no speech detected).
\<close>

definition segments_to_delete :: "real \<Rightarrow> real \<Rightarrow> interval list \<Rightarrow> interval list option" where
  "segments_to_delete gap_threshold video_duration segments =
     (case segments of
        [] \<Rightarrow> None
      | first_segment # rest \<Rightarrow>
          (let dels0 = (if fst first_segment > gap_threshold
                        then [(0, fst first_segment)] else []);
               (dels1, previous_end) = delete_loop gap_threshold rest (dels0, snd first_segment);
               dels2 = (if video_duration - previous_end > gap_threshold
                        then dels1 @ [(previous_end, video_duration)] else dels1)
           in Some dels2))"

text \<open>
  The loop of lines 79 to 90. The state is the list \<open>segments_to_keep\<close> and
  \<open>previous_keep_end_inc_buffer\<close>.
\<close>

fun keep_loop :: "real \<Rightarrow> interval list \<Rightarrow> interval list \<times> real \<Rightarrow> interval list \<times> real" where
  "keep_loop half_gap [] (keeps, prev) = (keeps, prev)"
| "keep_loop half_gap ((silence_start, silence_end) # dels) (keeps, prev) =
     (let keep_end = silence_start + half_gap;
          keep_start = prev
      in keep_loop half_gap dels
           (if keep_end > keep_start then keeps @ [(keep_start, keep_end)] else keeps,
            silence_end - half_gap))"

text \<open>
  The quotient \<open>gap_threshold / 2\<close> of line 67, in binary floating point. It is zero for
  the smallest positive float, \<open>2 ^ -1074\<close> (the exact half lies midway between zero and
  that float, and the tie goes to zero), and it is not zero for any greater float; from
  \<open>2 ^ -1021\<close> on it is exactly half the threshold. The model takes the quotient as zero
  up to \<open>2 ^ -1074\<close> and as the exact half above; for a threshold below \<open>2 ^ -1021\<close>
  the float can be a neighbour of the exact half, and no statement below depends on its
  value there.
\<close>

definition float_half :: "real \<Rightarrow> real" where
  "float_half x = (if \<bar>x\<bar> \<le> 1 / 2 ^ 1074 then 0 else x / 2)"

text \<open>Lines 65 to 94.\<close>

definition segments_to_keep :: "real \<Rightarrow> real \<Rightarrow> interval list \<Rightarrow> interval list" where
  "segments_to_keep gap_threshold video_duration dels =
     (let half_gap = float_half gap_threshold;
          (keeps, prev) = keep_loop half_gap dels ([], 0)
      in if prev < video_duration then keeps @ [(prev, video_duration)] else keeps)"

text \<open>
  The three early returns of the function (lines 43, 62 and 98) hand back the input file
  untouched; otherwise the video is cut to the kept segments.
\<close>

datatype early_return = No_speech | No_silence | Nothing_remains

definition keep_intervals :: "real \<Rightarrow> real \<Rightarrow> interval list \<Rightarrow> early_return + interval list" where
  "keep_intervals gap_threshold video_duration segments =
     (case segments_to_delete gap_threshold video_duration segments of
        None \<Rightarrow> Inl No_speech
      | Some dels \<Rightarrow>
          if dels = [] then Inl No_silence
          else (let keeps = segments_to_keep gap_threshold video_duration dels
                in if keeps = [] then Inl Nothing_remains else Inr keeps))"

section \<open>The filter graph: \<open>core/cleaner.py\<close>, lines 100 to 112\<close>

text \<open>
  The f-strings of the loop print the loop counter \<open>i\<close>, an integer that is never
  negative, in decimal, and the two floats \<open>start\<close> and \<open>end\<close> with Python's \<open>repr\<close>.
  The decimal printing is \<open>str_nat\<close>; the printing of a float is the parameter \<open>fmt\<close> of
  the model. The strings built here are ASCII.
\<close>

definition digit_char :: "nat \<Rightarrow> char" where
  "digit_char d = ''0123456789'' ! d"

fun str_nat :: "nat \<Rightarrow> string" where
  "str_nat n = (if n < 10 then [digit_char n] else str_nat (n div 10) @ [digit_char (n mod 10)])"

declare str_nat.simps [simp del]

definition video_trim :: "(real \<Rightarrow> string) \<Rightarrow> nat \<Rightarrow> interval \<Rightarrow> string" where
  "video_trim fmt i iv =
     ''[0:v]trim=start='' @ fmt (fst iv) @ '':end='' @ fmt (snd iv)
       @ '',setpts=PTS-STARTPTS[v'' @ str_nat i @ '']''"

definition audio_trim :: "(real \<Rightarrow> string) \<Rightarrow> nat \<Rightarrow> interval \<Rightarrow> string" where
  "audio_trim fmt i iv =
     ''[0:a]atrim=start='' @ fmt (fst iv) @ '':end='' @ fmt (snd iv)
       @ '',asetpts=PTS-STARTPTS[a'' @ str_nat i @ '']''"

definition concat_input :: "nat \<Rightarrow> string" where
  "concat_input i = ''[v'' @ str_nat i @ ''][a'' @ str_nat i @ '']''"

text \<open>
  The loop of lines 105 to 108, \<open>enumerate\<close> counting from \<open>i\<close>. The state is the pair of
  the lists \<open>filter_parts\<close> and \<open>concat_inputs\<close>.
\<close>

fun filter_loop ::
  "(real \<Rightarrow> string) \<Rightarrow> nat \<Rightarrow> interval list \<Rightarrow> string list \<times> string list
     \<Rightarrow> string list \<times> string list" where
  "filter_loop fmt i [] (filter_parts, concat_inputs) = (filter_parts, concat_inputs)"
| "filter_loop fmt i (iv # keeps) (filter_parts, concat_inputs) =
     filter_loop fmt (Suc i) keeps
       (filter_parts @ [video_trim fmt i iv, audio_trim fmt i iv],
        concat_inputs @ [concat_input i])"

text \<open>Python's \<open>sep.join(parts)\<close>.\<close>

fun join :: "string \<Rightarrow> string list \<Rightarrow> string" where
  "join sep [] = []"
| "join sep [x] = x"
| "join sep (x # y # ys) = x @ sep @ join sep (y # ys)"

definition filter_complex :: "(real \<Rightarrow> string) \<Rightarrow> interval list \<Rightarrow> string" where
  "filter_complex fmt keeps =
     (let (filter_parts, concat_inputs) = filter_loop fmt 0 keeps ([], [])
      in join '';'' filter_parts @ '';'' @ concat concat_inputs
           @ ''concat=n='' @ str_nat (length keeps) @ '':v=1:a=1[outv][outa]'')"

section \<open>Subtitle refinement: \<open>core/editor.py\<close>\<close>

text \<open>
  A Python string is a sequence of code points and \<open>len\<close> counts code points, so the text
  of a subtitle is a list of code points. A subtitle of the \<open>srt\<close> library has an
  \<open>index\<close>, a \<open>start\<close> and an \<open>end\<close> (time deltas, whole microseconds), its \<open>content\<close> and a
  \<open>proprietary\<close> string; the field \<open>end\<close> is \<open>end_time\<close> here. The subtitles of a list are separate objects, as \<open>srt.parse\<close>
  makes them, so a list of subtitles is modelled by the list of their values and a
  mutation of one subtitle by an update of its position.
\<close>

type_synonym pystr = "nat list"

record Subtitle =
  index :: int
  start :: int
  end_time :: int
  content :: pystr
  proprietary :: pystr

text \<open>The field \<open>output\<close> of \<open>ModifiedSentence\<close> is \<open>output_text\<close> here.\<close>

record ModifiedSentence =
  output_text :: pystr
  should_merge_next :: bool

subsection \<open>Pass 1, the dispatch: lines 226 to 242\<close>

text \<open>
  \<open>editor.py\<close> neither defines nor imports \<open>process_single_subtitle\<close>: line 229, which
  hands it to \<open>executor.submit\<close>, is the only line that names it. What the name is bound to
  is a parameter of the model: \<open>None\<close> when nothing is bound to it, and otherwise, for each
  position \<open>idx\<close>, what the future of that position gives when its result is asked for:
  it raises, or it returns \<open>None\<close>, or it returns a \<open>ModifiedSentence\<close> (which is truthy).
\<close>

datatype future_result = Raises | Returns "ModifiedSentence option"

datatype error = NameError

text \<open>The binding of the name in the module as it is: there is none.\<close>

definition process_single_subtitle :: "(nat \<Rightarrow> future_result) option" where
  "process_single_subtitle = None"

text \<open>\<open>ModifiedSentence(output=subtitles[idx].content)\<close>: the flag has its default.\<close>

definition original_sentence :: "Subtitle list \<Rightarrow> nat \<Rightarrow> ModifiedSentence" where
  "original_sentence subtitles idx =
     \<lparr>output_text = content (subtitles ! idx), should_merge_next = False\<rparr>"

text \<open>
  What the loop stores under the key \<open>idx\<close> (lines 235 to 239): the data of the future,
  or the original sentence when the future raised or gave nothing.
\<close>

definition slot :: "Subtitle list \<Rightarrow> (nat \<Rightarrow> future_result) \<Rightarrow> nat \<Rightarrow> ModifiedSentence" where
  "slot subtitles future idx =
     (case future idx of
        Raises \<Rightarrow> original_sentence subtitles idx
      | Returns None \<Rightarrow> original_sentence subtitles idx
      | Returns (Some data) \<Rightarrow> data)"

text \<open>
  The loop over \<open>as_completed\<close>: the positions arrive in the order in which their futures
  complete, and each one writes its own key of \<open>results\<close>.
\<close>

fun collect_results ::
  "Subtitle list \<Rightarrow> (nat \<Rightarrow> future_result) \<Rightarrow> nat list \<Rightarrow> (nat \<rightharpoonup> ModifiedSentence)
     \<Rightarrow> (nat \<rightharpoonup> ModifiedSentence)" where
  "collect_results subtitles future [] results = results"
| "collect_results subtitles future (idx # order) results =
     collect_results subtitles future order (results(idx \<mapsto> slot subtitles future idx))"

text \<open>
  One future is submitted for each position of \<open>range(len(subtitles))\<close>, and
  \<open>as_completed\<close> yields each of them once: a completion order is a list of the positions
  below \<open>n\<close> without repetition.
\<close>

definition completion_order :: "nat \<Rightarrow> nat list \<Rightarrow> bool" where
  "completion_order n order \<longleftrightarrow> distinct order \<and> set order = {0..<n}"

text \<open>
  Lines 226 to 242. The dictionary comprehension of line 228 evaluates the name
  \<open>process_single_subtitle\<close> for the first position: without a binding this raises
  \<open>NameError\<close>, outside the \<open>try\<close> of lines 235 to 239, and no result is stored. With a
  binding, the loop over \<open>as_completed\<close> fills \<open>results\<close>, which starts empty.
\<close>

definition refine_results ::
  "Subtitle list \<Rightarrow> (nat \<Rightarrow> future_result) option \<Rightarrow> nat list
     \<Rightarrow> error + (nat \<rightharpoonup> ModifiedSentence)" where
  "refine_results subs binding order =
     (case binding of
        None \<Rightarrow> if subs = [] then Inr Map.empty else Inl NameError
      | Some future \<Rightarrow> Inr (collect_results subs future order Map.empty))"

subsection \<open>Pass 1, reassembly and merge: lines 245 to 262\<close>

text \<open>
  The state of the loop: the subtitles, which the loop updates in place, the set
  \<open>skip_indices\<close> and the list \<open>final_subtitles\<close>.
\<close>

record reassembly =
  subtitles :: "Subtitle list"
  skip_indices :: "nat set"
  final_subtitles :: "Subtitle list"

text \<open>
  The body of the loop at position \<open>i\<close>. The keys of \<open>results\<close> are positions of
  \<open>subtitles\<close> (line 230) and \<open>i\<close> is one of them, so \<open>results[i]\<close> is there, and
  \<open>subtitles[i+1]\<close> is in range whenever \<open>i + 1\<close> is a key. The body has no statement that
  appends to \<open>final_subtitles\<close>.
\<close>

definition loop_body :: "(nat \<rightharpoonup> ModifiedSentence) \<Rightarrow> nat \<Rightarrow> reassembly \<Rightarrow> reassembly" where
  "loop_body results i st =
     (if i \<in> skip_indices st then st
      else case results i of
        None \<Rightarrow> st
      | Some current_data \<Rightarrow>
          (let subs1 = (subtitles st)[i := (subtitles st ! i)\<lparr>content := output_text current_data\<rparr>]
           in case (if should_merge_next current_data then results (i + 1) else None) of
                None \<Rightarrow> st\<lparr>subtitles := subs1\<rparr>
              | Some next_data \<Rightarrow>
                  (let combined = output_text current_data @ output_text next_data
                   in if length combined \<le> 30
                      then st\<lparr>subtitles :=
                                subs1[i := (subs1 ! i)\<lparr>content := combined,
                                                       end_time := end_time (subs1 ! (i + 1))\<rparr>],
                              skip_indices := insert (i + 1) (skip_indices st)\<rparr>
                      else st\<lparr>subtitles := subs1\<rparr>)))"

text \<open>\<open>sorted(results.keys())\<close>, the keys being positions below \<open>n\<close>.\<close>

definition sorted_indices :: "nat \<Rightarrow> (nat \<rightharpoonup> ModifiedSentence) \<Rightarrow> nat list" where
  "sorted_indices n results = filter (\<lambda>i. results i \<noteq> None) [0..<n]"

definition reassemble :: "Subtitle list \<Rightarrow> (nat \<rightharpoonup> ModifiedSentence) \<Rightarrow> reassembly" where
  "reassemble subs results =
     fold (loop_body results) (sorted_indices (length subs) results)
       \<lparr>subtitles = subs, skip_indices = {}, final_subtitles = []\<rparr>"

text \<open>
  What \<open>ai_refine_subtitles\<close> returns beside the file name: the list \<open>final_subtitles\<close>.
  \<open>None\<close> is the early return of line 222, for a file without subtitles; the error of
  the dispatch leaves the function.
\<close>

definition ai_refine_subtitles ::
  "Subtitle list \<Rightarrow> (nat \<Rightarrow> future_result) option \<Rightarrow> nat list
     \<Rightarrow> error + Subtitle list option" where
  "ai_refine_subtitles subs binding order =
     (if subs = [] then Inr None
      else case refine_results subs binding order of
             Inl e \<Rightarrow> Inl e
           | Inr results \<Rightarrow> Inr (Some (final_subtitles (reassemble subs results))))"

subsection \<open>Pass 2, review in chunks: lines 143 to 209\<close>

record ChunkCorrection =
  corr_index :: int
  corr_content :: pystr

definition CHUNK_SIZE :: nat where
  "CHUNK_SIZE = 100"

text \<open>
  \<open>next((s for s in chunk if s.index == correction.index), None)\<close>: the first subtitle of
  the chunk with that index, given by its position in the chunk.
\<close>

fun target :: "int \<Rightarrow> Subtitle list \<Rightarrow> nat option" where
  "target idx [] = None"
| "target idx (s # chunk) =
     (if index s = idx then Some 0 else map_option Suc (target idx chunk))"

text \<open>The body of the loop over the corrections; the state is the chunk and \<open>updates_count\<close>.\<close>

definition apply_correction ::
  "ChunkCorrection \<Rightarrow> Subtitle list \<times> nat \<Rightarrow> Subtitle list \<times> nat" where
  "apply_correction correction = (\<lambda>(chunk, updates_count).
     case target (corr_index correction) chunk of
       None \<Rightarrow> (chunk, updates_count)
     | Some k \<Rightarrow>
         if content (chunk ! k) \<noteq> corr_content correction
         then (chunk[k := (chunk ! k)\<lparr>content := corr_content correction\<rparr>], updates_count + 1)
         else (chunk, updates_count))"

text \<open>
  The \<open>try\<close> block of one chunk. The request to the service and the validation of its
  answer are the parameter \<open>source\<close>, which gets the position of the chunk and the chunk:
  \<open>None\<close> when either raises (the \<open>except\<close> of line 205, which leaves the chunk as it is),
  the corrections otherwise. Nothing in the loop over the corrections can raise.
\<close>

definition corrected_chunk ::
  "(nat \<Rightarrow> Subtitle list \<Rightarrow> ChunkCorrection list option) \<Rightarrow> nat \<Rightarrow> Subtitle list
     \<Rightarrow> Subtitle list" where
  "corrected_chunk source i chunk =
     (case source i chunk of
        None \<Rightarrow> chunk
      | Some corrections \<Rightarrow> fst (fold apply_correction corrections (chunk, 0)))"

text \<open>
  One turn of the loop over the chunks. The chunk is the slice
  \<open>subtitles[i : i + CHUNK_SIZE]\<close>, a new list of the same subtitles: what the corrections
  change in the chunk is changed at these positions of \<open>subtitles\<close>.
\<close>

definition review_chunk ::
  "(nat \<Rightarrow> Subtitle list \<Rightarrow> ChunkCorrection list option) \<Rightarrow> nat \<Rightarrow> Subtitle list
     \<Rightarrow> Subtitle list" where
  "review_chunk source i subs =
     (let chunk = take CHUNK_SIZE (drop i subs)
      in take i subs @ corrected_chunk source i chunk @ drop (i + CHUNK_SIZE) subs)"

text \<open>\<open>range(0, len(subtitles), CHUNK_SIZE)\<close>, evaluated once before the loop.\<close>

definition chunk_starts :: "nat \<Rightarrow> nat list" where
  "chunk_starts n = map (\<lambda>k. k * CHUNK_SIZE) [0..<(n + CHUNK_SIZE - 1) div CHUNK_SIZE]"

definition ai_review_chunks ::
  "(nat \<Rightarrow> Subtitle list \<Rightarrow> ChunkCorrection list option) \<Rightarrow> Subtitle list \<Rightarrow> Subtitle list" where
  "ai_review_chunks source subs = fold (review_chunk source) (chunk_starts (length subs)) subs"

subsection \<open>Example data\<close>

text \<open>
  Three lines with the texts \<open>x\<close>, \<open>y\<close> and \<open>z\<close>; results that rewrite them to \<open>a\<close>, \<open>b\<close> and \<open>c\<close>
  and all ask for a merge; the first two of the lines alone; and results whose first two
  texts have 16 and 15 characters.
\<close>

definition example_lines :: "Subtitle list" where
  "example_lines =
     [\<lparr>index = 1, start = 0, end_time = 1000000, content = [120], proprietary = []\<rparr>,
      \<lparr>index = 2, start = 1000000, end_time = 2000000, content = [121], proprietary = []\<rparr>,
      \<lparr>index = 3, start = 2000000, end_time = 3000000, content = [122], proprietary = []\<rparr>]"

definition example_results :: "nat \<rightharpoonup> ModifiedSentence" where
  "example_results =
     [0 \<mapsto> \<lparr>output_text = [97], should_merge_next = True\<rparr>,
      1 \<mapsto> \<lparr>output_text = [98], should_merge_next = True\<rparr>,
      2 \<mapsto> \<lparr>output_text = [99], should_merge_next = True\<rparr>]"

definition two_lines :: "Subtitle list" where
  "two_lines =
     [\<lparr>index = 1, start = 0, end_time = 1000000, content = [120], proprietary = []\<rparr>,
      \<lparr>index = 2, start = 1000000, end_time = 2000000, content = [121], proprietary = []\<rparr>]"

definition long_results :: "nat \<rightharpoonup> ModifiedSentence" where
  "long_results =
     [0 \<mapsto> \<lparr>output_text = replicate 16 97, should_merge_next = True\<rparr>,
      1 \<mapsto> \<lparr>output_text = replicate 15 98, should_merge_next = False\<rparr>,
      2 \<mapsto> \<lparr>output_text = [99], should_merge_next = False\<rparr>]"




definition many_lines :: "Subtitle list" where
  "many_lines =
     map (\<lambda>k. \<lparr>index = int k + 1, start = int k * 1000000, end_time = int k * 1000000 + 1000000,
               content = [120], proprietary = []\<rparr>) [0..<102]"

definition example_source :: "nat \<Rightarrow> Subtitle list \<Rightarrow> ChunkCorrection list option" where
  "example_source i chunk =
     (if i = 0 then None
      else Some [\<lparr>corr_index = 101, corr_content = [113]\<rparr>,
                 \<lparr>corr_index = 5, corr_content = [113]\<rparr>])"

text \<open>
  The number that a string of decimal digits denotes (Python's \<open>int(s)\<close>); it serves to say
  what \<open>str_nat\<close> prints.
\<close>

definition decimal :: "string \<Rightarrow> nat" where
  "decimal ds = foldl (\<lambda>a c. 10 * a + (of_char c - 48)) 0 ds"

text \<open>
  The kept segments of the example of the specification, and how Python prints the six
  floats in them.
\<close>

definition example_keeps :: "interval list" where
  "example_keeps = [(0, 1/2), (3/2, 11/2), (19/2, 10)]"

definition example_fmt :: "real \<Rightarrow> string" where
  "example_fmt r =
     (if r = 0 then ''0.0'' else if r = 1/2 then ''0.5'' else if r = 3/2 then ''1.5''
      else if r = 11/2 then ''5.5'' else if r = 19/2 then ''9.5'' else ''10.0'')"

section \<open>Properties of the silence removal\<close>

lemma float_half_one: "float_half 1 = 1 / 2"
  by (simp add: float_half_def)

lemma float_half_bounds: "0 < g \<Longrightarrow> 0 \<le> float_half g \<and> 2 * float_half g \<le> g"
  by (simp add: float_half_def)

lemma float_half_exact: "1 / 2 ^ 1074 < g \<Longrightarrow> float_half g = g / 2"
  by (simp add: float_half_def)

text \<open>
  C1, as the specification states it, fails. For the speech segment from 2 to 5 in a video
  of 10 seconds and a threshold of 1 second, the silences are indeed those from 0 to 2 and
  from 5 to 10, but the kept segments are not the two segments from 0 to 2.5 and from 4.5
  to 10.
\<close>

theorem example_not_two_intervals:
  "\<not> (segments_to_delete 1 10 [(2, 5)] = Some [(0, 2), (5, 10)]
      \<and> keep_intervals 1 10 [(2, 5)] = Inr [(0, 5/2), (9/2, 10)])"
  by (simp add: keep_intervals_def segments_to_delete_def segments_to_keep_def float_half_one)

text \<open>
  C1, amended. On that input the silences are those from 0 to 2 and from 5 to 10, and
  three segments are kept: the first half second of the video, the speech with half a
  second of silence on each side (from 1.5 to 5.5), and the last half second.
\<close>

theorem example_three_intervals:
  "segments_to_delete 1 10 [(2, 5)] = Some [(0, 2), (5, 10)]
   \<and> keep_intervals 1 10 [(2, 5)] = Inr [(0, 1/2), (3/2, 11/2), (19/2, 10)]"
  by (simp add: keep_intervals_def segments_to_delete_def segments_to_keep_def float_half_one)

lemma delete_loop_inv:
  assumes "sorted_wrt before segs"
    and "\<forall>iv\<in>set segs. pe \<le> fst iv \<and> fst iv \<le> snd iv"
    and "sorted_wrt before dels"
    and "\<forall>d\<in>set dels. 0 \<le> fst d \<and> g < snd d - fst d \<and> snd d \<le> pe"
    and "0 \<le> pe"
    and "delete_loop g segs (dels, pe) = (dels', pe')"
  shows "sorted_wrt before dels' \<and> (\<forall>d\<in>set dels'. 0 \<le> fst d \<and> g < snd d - fst d \<and> snd d \<le> pe')
         \<and> pe \<le> pe' \<and> (pe' = pe \<or> pe' \<in> snd ` set segs)"
  using assms
proof (induction segs arbitrary: dels pe)
  case Nil
  then show ?case by simp
next
  case (Cons seg segs)
  let ?dels = "if fst seg - pe > g then dels @ [(pe, fst seg)] else dels"
  have step: "delete_loop g segs (?dels, snd seg) = (dels', pe')"
    using Cons.prems(6) by simp
  have a1: "sorted_wrt before segs" using Cons.prems(1) by simp
  have a2: "\<forall>iv\<in>set segs. snd seg \<le> fst iv \<and> fst iv \<le> snd iv"
    using Cons.prems(1,2) by auto
  have le: "pe \<le> fst seg" "fst seg \<le> snd seg" using Cons.prems(2) by auto
  have a3: "sorted_wrt before ?dels"
    using Cons.prems(3,4) by (auto simp: sorted_wrt_append)
  have a4: "\<forall>d\<in>set ?dels. 0 \<le> fst d \<and> g < snd d - fst d \<and> snd d \<le> snd seg"
    using Cons.prems(4,5) le by auto
  have a5: "0 \<le> snd seg" using Cons.prems(5) le by linarith
  from Cons.IH[OF a1 a2 a3 a4 a5 step] le show ?case by auto
qed

lemma keep_loop_inv:
  assumes "sorted_wrt before dels"
    and "\<forall>d\<in>set dels. p \<le> fst d \<and> 2 * h < snd d - fst d"
    and "0 \<le> h"
    and "sorted_wrt before ks"
    and "\<forall>k\<in>set ks. fst k < snd k \<and> snd k \<le> p"
    and "keep_loop h dels (ks, p) = (ks', p')"
  shows "sorted_wrt before ks' \<and> (\<forall>k\<in>set ks'. fst k < snd k \<and> snd k \<le> p')"
  using assms
proof (induction dels arbitrary: ks p)
  case Nil
  then show ?case by simp
next
  case (Cons d dels)
  obtain s e where d: "d = (s, e)" by (cases d)
  let ?ks = "if s + h > p then ks @ [(p, s + h)] else ks"
  have step: "keep_loop h dels (?ks, e - h) = (ks', p')"
    using Cons.prems(6) d by (simp add: Let_def)
  have b: "p \<le> s" "2 * h < e - s" using Cons.prems(2) d by auto
  have a1: "sorted_wrt before dels" using Cons.prems(1) by simp
  have a2: "\<forall>d\<in>set dels. e - h \<le> fst d \<and> 2 * h < snd d - fst d"
    using Cons.prems(1,2,3) d by fastforce
  have a4: "sorted_wrt before ?ks"
    using Cons.prems(4,5) by (auto simp: sorted_wrt_append)
  have pe: "p \<le> e - h" "s + h \<le> e - h" using b Cons.prems(3) by linarith+
  have old: "\<forall>k\<in>set ks. fst k < snd k \<and> snd k \<le> e - h"
  proof
    fix k assume "k \<in> set ks"
    then have "fst k < snd k \<and> snd k \<le> p" using Cons.prems(5) by blast
    then show "fst k < snd k \<and> snd k \<le> e - h" using pe by linarith
  qed
  have a5: "\<forall>k\<in>set ?ks. fst k < snd k \<and> snd k \<le> e - h"
    using old pe by simp
  from Cons.IH[OF a1 a2 Cons.prems(3) a4 a5 step] show ?case .
qed


lemma segments_to_delete_inv:
  assumes sorted: "sorted_wrt before segs"
    and bounds: "\<forall>iv\<in>set segs. 0 \<le> fst iv \<and> fst iv < snd iv \<and> snd iv \<le> dur"
    and g: "0 < g"
    and dels: "segments_to_delete g dur segs = Some dels"
  shows "sorted_wrt before dels \<and> (\<forall>d\<in>set dels. 0 \<le> fst d \<and> g < snd d - fst d)"
proof -
  obtain first rest where segs: "segs = first # rest"
    using dels by (cases segs) (auto simp: segments_to_delete_def)
  let ?dels0 = "if fst first > g then [(0, fst first)] else []"
  obtain dels1 pe where loop: "delete_loop g rest (?dels0, snd first) = (dels1, pe)"
    by (cases "delete_loop g rest (?dels0, snd first)")
  have res: "dels = (if dur - pe > g then dels1 @ [(pe, dur)] else dels1)"
    using dels loop by (simp add: segments_to_delete_def segs)
  have f: "0 \<le> fst first" "fst first < snd first" using bounds segs by auto
  have a1: "sorted_wrt before rest" using sorted segs by simp
  have a2: "\<forall>iv\<in>set rest. snd first \<le> fst iv \<and> fst iv \<le> snd iv"
    using sorted bounds segs by fastforce
  have a3: "sorted_wrt before ?dels0" by simp
  have a4: "\<forall>d\<in>set ?dels0. 0 \<le> fst d \<and> g < snd d - fst d \<and> snd d \<le> snd first"
    using f by simp
  have a5: "0 \<le> snd first" using f by linarith
  have inv: "sorted_wrt before dels1 \<and> (\<forall>d\<in>set dels1. 0 \<le> fst d \<and> g < snd d - fst d \<and> snd d \<le> pe)
         \<and> snd first \<le> pe"
    using delete_loop_inv[OF a1 a2 a3 a4 a5 loop] by blast
  then have "0 \<le> pe" using a5 by linarith
  with inv show ?thesis unfolding res by (auto simp: sorted_wrt_append)
qed

lemma segments_to_keep_inv:
  assumes sorted: "sorted_wrt before dels"
    and gaps: "\<forall>d\<in>set dels. 0 \<le> fst d \<and> g < snd d - fst d"
    and g: "0 < g"
  shows "sorted_wrt before (segments_to_keep g dur dels) \<and>
         (\<forall>k\<in>set (segments_to_keep g dur dels). fst k < snd k)"
proof -
  obtain ks p where loop: "keep_loop (float_half g) dels ([], 0) = (ks, p)"
    by (cases "keep_loop (float_half g) dels ([], 0)")
  have res: "segments_to_keep g dur dels = (if p < dur then ks @ [(p, dur)] else ks)"
    using loop by (simp add: segments_to_keep_def)
  have a3: "0 \<le> float_half g" and h: "2 * float_half g \<le> g"
    using float_half_bounds[OF g] by simp_all
  have a2: "\<forall>d\<in>set dels. 0 \<le> fst d \<and> 2 * float_half g < snd d - fst d"
  proof
    fix d assume "d \<in> set dels"
    then have "0 \<le> fst d \<and> g < snd d - fst d" using gaps by blast
    then show "0 \<le> fst d \<and> 2 * float_half g < snd d - fst d" using h by linarith
  qed
  have a4: "sorted_wrt before []" by simp
  have a5: "\<forall>k\<in>set ([]::interval list). fst k < snd k \<and> snd k \<le> 0" by simp
  have inv: "sorted_wrt before ks \<and> (\<forall>k\<in>set ks. fst k < snd k \<and> snd k \<le> p)"
    using keep_loop_inv[OF sorted a2 a3 a4 a5 loop] .
  then show ?thesis unfolding res by (auto simp: sorted_wrt_append)
qed

text \<open>
  C4. For speech segments that are non-empty, ordered, disjoint and inside the video, and
  a positive threshold: every kept segment ends after it starts, each kept segment starts
  at or after the end of every earlier one, and the starts increase strictly.
\<close>

theorem keep_intervals_increasing:
  assumes "segs \<noteq> []"
    and "sorted_wrt (\<lambda>a b. snd a \<le> fst b) segs"
    and "\<forall>iv\<in>set segs. 0 \<le> fst iv \<and> fst iv < snd iv \<and> snd iv \<le> dur"
    and "0 < g"
    and "keep_intervals g dur segs = Inr ks"
  shows "(\<forall>k\<in>set ks. fst k < snd k) \<and>
         (\<forall>i j. i < j \<and> j < length ks \<longrightarrow>
            snd (ks ! i) \<le> fst (ks ! j) \<and> fst (ks ! i) < fst (ks ! j))"
proof -
  obtain dels where dels: "segments_to_delete g dur segs = Some dels"
    and ks: "ks = segments_to_keep g dur dels"
    using assms(5)
    by (auto simp: keep_intervals_def Let_def split: option.splits if_splits)
  note d = segments_to_delete_inv[OF assms(2,3,4) dels]
  have k: "sorted_wrt before ks \<and> (\<forall>k\<in>set ks. fst k < snd k)"
    unfolding ks using segments_to_keep_inv[OF _ _ assms(4)] d by blast
  show ?thesis
  proof (intro conjI allI impI)
    show "\<forall>k\<in>set ks. fst k < snd k" using k by blast
  next
    fix i j assume ij: "i < j \<and> j < length ks"
    then show "snd (ks ! i) \<le> fst (ks ! j)"
      using k by (simp add: sorted_wrt_iff_nth_less)
    moreover have "fst (ks ! i) < snd (ks ! i)" using k ij by simp
    ultimately show "fst (ks ! i) < fst (ks ! j)" by linarith
  qed
qed

theorem keep_intervals_increasing_witness:
  "sorted_wrt (\<lambda>a b. snd a \<le> fst b) [(2::real, 5::real)]
   \<and> list_all (\<lambda>iv. 0 \<le> fst iv \<and> fst iv < snd iv \<and> snd iv \<le> 10) [(2::real, 5::real)]
   \<and> keep_intervals 1 10 [(2, 5)] = Inr [(0, 1/2), (3/2, 11/2), (19/2, 10)]
   \<and> list_all (\<lambda>k. fst k < snd k) [(0::real, 1/2::real), (3/2, 11/2), (19/2, 10)]
   \<and> snd ([(0::real, 1/2::real), (3/2, 11/2), (19/2, 10)] ! 0)
        \<le> fst ([(0::real, 1/2::real), (3/2, 11/2), (19/2, 10)] ! 2)
   \<and> fst ([(0::real, 1/2::real), (3/2, 11/2), (19/2, 10)] ! 1)
        < fst ([(0::real, 1/2::real), (3/2, 11/2), (19/2, 10)] ! 2)"
proof -
  have k: "keep_intervals 1 10 [(2, 5)] = Inr [(0, 1/2), (3/2, 11/2), (19/2, 10)]"
    by (simp add: keep_intervals_def segments_to_delete_def segments_to_keep_def float_half_one)
  show ?thesis
    using keep_intervals_increasing[of "[(2, 5)]" 10 1 "[(0, 1/2), (3/2, 11/2), (19/2, 10)]"] k
    by simp
qed

lemma keep_loop_acc:
  "keep_loop h dels (ks, p) =
     (ks @ fst (keep_loop h dels ([], p)), snd (keep_loop h dels ([], p)))"
proof (induction dels arbitrary: ks p)
  case Nil
  then show ?case by simp
next
  case (Cons d dels)
  obtain s e where d: "d = (s, e)" by (cases d)
  show ?case
    unfolding d
    by (simp add: Let_def Cons.IH[of "ks @ [(p, s + h)]"] Cons.IH[of "[(p, s + h)]"] Cons.IH[of ks])
qed

lemma delete_loop_acc:
  "delete_loop g segs (dels, pe) =
     (dels @ fst (delete_loop g segs ([], pe)), snd (delete_loop g segs ([], pe)))"
proof (induction segs arbitrary: dels pe)
  case Nil
  then show ?case by simp
next
  case (Cons seg segs)
  show ?case
    by (simp add: Cons.IH[of "dels @ [(pe, fst seg)]"] Cons.IH[of "[(pe, fst seg)]"] Cons.IH[of dels])
qed

lemma delete_loop_nonneg:
  assumes "\<forall>iv\<in>set segs. 0 \<le> snd iv" and "0 \<le> pe" and "\<forall>d\<in>set dels. 0 \<le> fst d"
    and "delete_loop g segs (dels, pe) = (dels', pe')"
  shows "(\<forall>d\<in>set dels'. 0 \<le> fst d) \<and> 0 \<le> pe'"
  using assms
proof (induction segs arbitrary: dels pe)
  case Nil
  then show ?case by simp
next
  case (Cons seg segs)
  let ?dels = "if fst seg - pe > g then dels @ [(pe, fst seg)] else dels"
  have step: "delete_loop g segs (?dels, snd seg) = (dels', pe')"
    using Cons.prems(4) by simp
  have "\<forall>d\<in>set ?dels. 0 \<le> fst d" using Cons.prems(2,3) by simp
  moreover have "0 \<le> snd seg" "\<forall>iv\<in>set segs. 0 \<le> snd iv" using Cons.prems(1) by simp_all
  ultimately show ?case using Cons.IH[OF _ _ _ step] by blast
qed

text \<open>
  C10, as it is stated, fails for the smallest positive threshold, \<open>2 ^ -1074\<close>: its half
  is zero in floating point, the first kept segment would be empty and line 86 drops it.
  For speech from 1 to 2 in a video of 3 seconds, two silences are found and the only
  kept segment is the speech itself, which starts at 1.
\<close>

theorem smallest_threshold_drops_lead:
  "(0::real) < 1 / 2 ^ 1074
   \<and> segments_to_delete (1 / 2 ^ 1074) 3 [(1, 2)] = Some [(0, 1), (2, 3)]
   \<and> keep_intervals (1 / 2 ^ 1074) 3 [(1, 2)] = Inr [(1, 2)]"
  by (simp add: keep_intervals_def segments_to_delete_def segments_to_keep_def float_half_def)

text \<open>
  C10, amended. When at least one silence is found, the half of the threshold as line 67
  computes it is positive (every positive float but the smallest) and the speech segments
  are well formed (no negative time, end after start), the video is cut and the first
  kept segment starts at 0; when the video starts with a silence longer than the
  threshold, which is at least \<open>2 ^ -1021\<close> (so that its half is exact), that first kept
  segment is the first half threshold of that silence.
\<close>

theorem first_keep_starts_at_zero:
  assumes g: "0 < float_half g"
    and bounds: "\<forall>iv\<in>set (first_segment # rest). 0 \<le> fst iv \<and> fst iv < snd iv"
    and dels: "segments_to_delete g dur (first_segment # rest) = Some dels"
    and ne: "dels \<noteq> []"
  shows "\<exists>e more. keep_intervals g dur (first_segment # rest) = Inr ((0, e) # more)
           \<and> 0 < e
           \<and> (g < fst first_segment \<and> 1 / 2 ^ 1021 \<le> g \<longrightarrow> e = g / 2)"
proof -
  let ?h = "float_half g"
  let ?dels0 = "if fst first_segment > g then [(0, fst first_segment)] else []"
  obtain dels1 pe where loop: "delete_loop g rest (?dels0, snd first_segment) = (dels1, pe)"
    by (cases "delete_loop g rest (?dels0, snd first_segment)")
  have res: "dels = (if dur - pe > g then dels1 @ [(pe, dur)] else dels1)"
    using dels loop by (simp add: segments_to_delete_def)
  have f: "0 \<le> snd first_segment" "\<forall>iv\<in>set rest. 0 \<le> snd iv"
    using bounds by fastforce+
  have nn: "(\<forall>d\<in>set dels1. 0 \<le> fst d) \<and> 0 \<le> pe"
    using delete_loop_nonneg[OF f(2) f(1) _ loop] by simp
  have dels_nn: "\<forall>d\<in>set dels. 0 \<le> fst d" using nn by (simp add: res)
  obtain s e ds where d: "dels = (s, e) # ds" using ne by (cases dels) auto
  have s0: "0 \<le> s" using dels_nn d by simp
  have lead: "s = 0" if "g < fst first_segment"
  proof -
    have "dels1 = [(0, fst first_segment)] @ fst (delete_loop g rest ([], snd first_segment))"
      using loop that delete_loop_acc[of g rest "[(0, fst first_segment)]" "snd first_segment"]
      by simp
    then show ?thesis using d res by (auto split: if_splits)
  qed
  have exact: "?h = g / 2" if "1 / 2 ^ 1021 \<le> g"
  proof -
    have "(1::real) / 2 ^ 1074 < 1 / 2 ^ 1021" by simp
    then show ?thesis using that by (intro float_half_exact) linarith
  qed
  obtain ks1 p where kl: "keep_loop ?h ds ([], e - ?h) = (ks1, p)"
    by (cases "keep_loop ?h ds ([], e - ?h)")
  have "keep_loop ?h dels ([], 0) = ((0, s + ?h) # ks1, p)"
    using s0 g kl keep_loop_acc[of ?h ds "[(0, s + ?h)]" "e - ?h"]
    by (simp add: d Let_def)
  then have "segments_to_keep g dur dels
               = (0, s + ?h) # (if p < dur then ks1 @ [(p, dur)] else ks1)"
    by (simp add: segments_to_keep_def)
  then have "keep_intervals g dur (first_segment # rest)
               = Inr ((0, s + ?h) # (if p < dur then ks1 @ [(p, dur)] else ks1))"
    using dels ne by (simp add: keep_intervals_def)
  moreover have "0 < s + ?h" using s0 g by simp
  ultimately show ?thesis using lead exact by auto
qed

theorem first_keep_starts_at_zero_witness:
  "(0::real) < float_half 1
   \<and> list_all (\<lambda>iv. 0 \<le> fst iv \<and> fst iv < snd iv) [(2::real, 5::real)]
   \<and> segments_to_delete 1 10 [(2, 5)] = Some [(0, 2), (5, 10)]
   \<and> (\<exists>e more. keep_intervals 1 10 [(2, 5)] = Inr ((0, e) # more) \<and> 0 < e
        \<and> e = 1 / 2)"
proof -
  have d: "segments_to_delete 1 10 [(2, 5)] = Some [(0, 2), (5, 10)]"
    by (simp add: segments_to_delete_def)
  have "\<exists>e more. keep_intervals 1 10 [(2, 5)] = Inr ((0, e) # more) \<and> 0 < e
        \<and> e = 1 / 2"
    using first_keep_starts_at_zero[of 1 "(2, 5)" "[]" 10 "[(0, 2), (5, 10)]"] d
    by (simp add: float_half_one)
  then show ?thesis using d by (simp add: float_half_one)
qed

section \<open>Properties of the filter graph\<close>

lemma filter_loop_closed:
  "filter_loop fmt i keeps (fp, ci) =
     (fp @ concat (map (\<lambda>(k, iv). [video_trim fmt k iv, audio_trim fmt k iv]) (enumerate i keeps)),
      ci @ map concat_input [i..<i + length keeps])"
proof (induction keeps arbitrary: i fp ci)
  case Nil
  then show ?case by simp
next
  case (Cons iv keeps)
  have "[i..<i + Suc (length keeps)] = i # [Suc i..<i + Suc (length keeps)]"
    by (rule upt_conv_Cons) simp
  then show ?case by (simp add: Cons.IH)
qed

lemma digit_char_inj:
  assumes "d < 10" and "e < 10" and "digit_char d = digit_char e"
  shows "d = e"
proof -
  have "distinct ''0123456789''" by simp
  moreover have "d < length ''0123456789''" "e < length ''0123456789''"
    using assms by simp_all
  ultimately show ?thesis
    using assms(3) unfolding digit_char_def by (simp only: nth_eq_iff_index_eq)
qed

lemma str_nat_not_empty: "str_nat n \<noteq> []"
  by (subst str_nat.simps) simp

lemma str_nat_inj: "str_nat m = str_nat n \<Longrightarrow> m = n"
proof (induction m arbitrary: n rule: str_nat.induct)
  case (1 m)
  show ?case
  proof (cases "m < 10")
    case True
    have n: "n < 10"
    proof (rule ccontr)
      assume "\<not> n < 10"
      then have "str_nat n = str_nat (n div 10) @ [digit_char (n mod 10)]"
        by (subst str_nat.simps) simp
      moreover have "str_nat m = [digit_char m]" using True by (subst str_nat.simps) simp
      ultimately show False using "1.prems" str_nat_not_empty[of "n div 10"] by simp
    qed
    have "str_nat m = [digit_char m]" "str_nat n = [digit_char n]"
      using True n by (subst str_nat.simps, simp)+
    then show ?thesis using "1.prems" True n digit_char_inj by simp
  next
    case False
    have m: "str_nat m = str_nat (m div 10) @ [digit_char (m mod 10)]"
      using False by (subst str_nat.simps) simp
    have n: "\<not> n < 10"
    proof
      assume "n < 10"
      then have "str_nat n = [digit_char n]" by (subst str_nat.simps) simp
      then show False using m "1.prems" str_nat_not_empty[of "m div 10"] by simp
    qed
    then have "str_nat n = str_nat (n div 10) @ [digit_char (n mod 10)]"
      by (subst str_nat.simps) simp
    with m "1.prems" have eq: "str_nat (m div 10) = str_nat (n div 10)"
      "digit_char (m mod 10) = digit_char (n mod 10)" by simp_all
    have "m div 10 = n div 10" using "1.IH"[OF False eq(1)] .
    moreover have "m mod 10 = n mod 10" using digit_char_inj[OF _ _ eq(2)] by simp
    ultimately show ?thesis by (metis div_mult_mod_eq)
  qed
qed

lemma concat_input_inj: "concat_input i = concat_input j \<Longrightarrow> i = j"
proof -
  assume a: "concat_input i = concat_input j"
  then have e: "str_nat i @ ''][a'' @ str_nat i @ '']'' = str_nat j @ ''][a'' @ str_nat j @ '']''"
    by (simp add: concat_input_def)
  have "length (str_nat i) = length (str_nat j)"
    using arg_cong[OF e, of length] by simp
  with e have "str_nat i = str_nat j" by simp
  then show ?thesis by (rule str_nat_inj)
qed

lemma join_then_sep: "xs \<noteq> [] \<Longrightarrow> join sep xs @ sep = concat (map (\<lambda>x. x @ sep) xs)"
  by (induction sep xs rule: join.induct) simp_all

lemma concat_pairs:
  "concat (map (\<lambda>x. x @ sep) (concat (map (\<lambda>(i, iv). [f i iv, g i iv]) ps)))
     = concat (map (\<lambda>(i, iv). f i iv @ sep @ g i iv @ sep) ps)"
  by (induction ps) (simp_all add: split_def)

lemma digit_char_code: "d < 10 \<Longrightarrow> of_char (digit_char d) = 48 + d"
proof -
  assume "d < 10"
  then have "d \<in> {0, 1, 2, 3, 4, 5, 6, 7, 8, 9}" by auto
  then show ?thesis by (auto simp: digit_char_def)
qed

lemma digit_char_digit: "d < 10 \<Longrightarrow> digit_char d \<in> set ''0123456789''"
  unfolding digit_char_def by (rule nth_mem) simp

lemma digit_char_zero: "d < 10 \<Longrightarrow> digit_char d = CHR ''0'' \<Longrightarrow> d = 0"
  using digit_char_inj[of d 0] by (simp add: digit_char_def)

lemma decimal_str_nat: "decimal (str_nat n) = n"
proof (induction n rule: str_nat.induct)
  case (1 n)
  show ?case
  proof (cases "n < 10")
    case True
    then show ?thesis
      by (subst str_nat.simps) (simp add: decimal_def digit_char_code)
  next
    case False
    then have "decimal (str_nat (n div 10)) = n div 10" using "1.IH" by simp
    then show ?thesis
      using False
      by (subst str_nat.simps) (simp add: decimal_def digit_char_code)
  qed
qed

lemma str_nat_digits: "set (str_nat n) \<subseteq> set ''0123456789''"
proof (induction n rule: str_nat.induct)
  case (1 n)
  show ?case
  proof (cases "n < 10")
    case True
    then show ?thesis
      using digit_char_digit[of n] by (subst str_nat.simps) simp
  next
    case False
    then have "set (str_nat (n div 10)) \<subseteq> set ''0123456789''" using "1.IH" by simp
    then show ?thesis
      using False digit_char_digit[of "n mod 10"] by (subst str_nat.simps) simp
  qed
qed

lemma str_nat_no_leading_zero: "n \<noteq> 0 \<Longrightarrow> hd (str_nat n) \<noteq> CHR ''0''"
proof (induction n rule: str_nat.induct)
  case (1 n)
  show ?case
  proof (cases "n < 10")
    case True
    then show ?thesis
      using "1.prems" digit_char_zero[of n] by (subst str_nat.simps) auto
  next
    case False
    then have "n div 10 \<noteq> 0" by simp
    then have "hd (str_nat (n div 10)) \<noteq> CHR ''0''" using "1.IH" False by simp
    then show ?thesis
      using False str_nat_not_empty[of "n div 10"] by (subst str_nat.simps) simp
  qed
qed

text \<open>
  C8. For a non-empty list of kept segments: the loop emits, for the kept segment at
  position \<open>i\<close>, one video trim and one audio trim with the start and the end of that
  segment, labelled \<open>[v\<close>\<open>i\<close>\<open>]\<close> and \<open>[a\<close>\<open>i\<close>\<open>]\<close>, next to each other and in the order of the
  kept segments; the inputs of the concatenation are these pairs of labels in the same
  order; the argument of ffmpeg is these trims, each followed by a semicolon, then the
  labels, then the concatenation with the number of kept segments as its count. The
  counter and the count are printed in decimal (digits only, no leading zero, denoting
  the number), so different positions have different labels.
\<close>

theorem filter_graph_pairs:
  assumes "keeps \<noteq> []"
  shows "filter_loop fmt 0 keeps ([], []) =
           (concat (map (\<lambda>(i, iv).
                      [''[0:v]trim=start='' @ fmt (fst iv) @ '':end='' @ fmt (snd iv)
                         @ '',setpts=PTS-STARTPTS[v'' @ str_nat i @ '']'',
                       ''[0:a]atrim=start='' @ fmt (fst iv) @ '':end='' @ fmt (snd iv)
                         @ '',asetpts=PTS-STARTPTS[a'' @ str_nat i @ '']''])
                    (enumerate 0 keeps)),
            map (\<lambda>i. ''[v'' @ str_nat i @ ''][a'' @ str_nat i @ '']'') [0..<length keeps])
   \<and> filter_complex fmt keeps =
       concat (map (\<lambda>(i, iv).
                 ''[0:v]trim=start='' @ fmt (fst iv) @ '':end='' @ fmt (snd iv)
                   @ '',setpts=PTS-STARTPTS[v'' @ str_nat i @ '']'' @ '';''
                 @ ''[0:a]atrim=start='' @ fmt (fst iv) @ '':end='' @ fmt (snd iv)
                   @ '',asetpts=PTS-STARTPTS[a'' @ str_nat i @ '']'' @ '';'')
               (enumerate 0 keeps))
         @ concat (map (\<lambda>i. ''[v'' @ str_nat i @ ''][a'' @ str_nat i @ '']'') [0..<length keeps])
         @ ''concat=n='' @ str_nat (length keeps) @ '':v=1:a=1[outv][outa]''
   \<and> decimal (str_nat n) = n
   \<and> set (str_nat n) \<subseteq> set ''0123456789''
   \<and> (n \<noteq> 0 \<longrightarrow> hd (str_nat n) \<noteq> CHR ''0'')
   \<and> (str_nat i = str_nat j \<longrightarrow> i = j)"
proof (intro conjI impI)
  have parts: "filter_loop fmt 0 keeps ([], []) =
     (concat (map (\<lambda>(i, iv). [video_trim fmt i iv, audio_trim fmt i iv]) (enumerate 0 keeps)),
      map concat_input [0..<length keeps])"
    by (simp add: filter_loop_closed)
  then show "filter_loop fmt 0 keeps ([], []) =
           (concat (map (\<lambda>(i, iv).
                      [''[0:v]trim=start='' @ fmt (fst iv) @ '':end='' @ fmt (snd iv)
                         @ '',setpts=PTS-STARTPTS[v'' @ str_nat i @ '']'',
                       ''[0:a]atrim=start='' @ fmt (fst iv) @ '':end='' @ fmt (snd iv)
                         @ '',asetpts=PTS-STARTPTS[a'' @ str_nat i @ '']''])
                    (enumerate 0 keeps)),
            map (\<lambda>i. ''[v'' @ str_nat i @ ''][a'' @ str_nat i @ '']'') [0..<length keeps])"
    by (simp add: video_trim_def audio_trim_def concat_input_def)
  let ?ps = "concat (map (\<lambda>(i, iv). [video_trim fmt i iv, audio_trim fmt i iv]) (enumerate 0 keeps))"
  have "?ps \<noteq> []" using assms by (cases keeps) simp_all
  then have "join '';'' ?ps @ '';'' = concat (map (\<lambda>x. x @ '';'') ?ps)"
    by (rule join_then_sep)
  also have "\<dots> = concat (map (\<lambda>(i, iv). video_trim fmt i iv @ '';'' @ audio_trim fmt i iv @ '';'')
                         (enumerate 0 keeps))"
    by (rule concat_pairs)
  finally have fc: "filter_complex fmt keeps =
      concat (map (\<lambda>(i, iv). video_trim fmt i iv @ '';'' @ audio_trim fmt i iv @ '';'')
                (enumerate 0 keeps))
        @ concat (map concat_input [0..<length keeps])
        @ ''concat=n='' @ str_nat (length keeps) @ '':v=1:a=1[outv][outa]''"
    unfolding filter_complex_def parts by simp
  show "filter_complex fmt keeps =
       concat (map (\<lambda>(i, iv).
                 ''[0:v]trim=start='' @ fmt (fst iv) @ '':end='' @ fmt (snd iv)
                   @ '',setpts=PTS-STARTPTS[v'' @ str_nat i @ '']'' @ '';''
                 @ ''[0:a]atrim=start='' @ fmt (fst iv) @ '':end='' @ fmt (snd iv)
                   @ '',asetpts=PTS-STARTPTS[a'' @ str_nat i @ '']'' @ '';'')
               (enumerate 0 keeps))
         @ concat (map (\<lambda>i. ''[v'' @ str_nat i @ ''][a'' @ str_nat i @ '']'') [0..<length keeps])
         @ ''concat=n='' @ str_nat (length keeps) @ '':v=1:a=1[outv][outa]''"
    unfolding fc video_trim_def audio_trim_def concat_input_def by simp
  show "decimal (str_nat n) = n" by (rule decimal_str_nat)
  show "set (str_nat n) \<subseteq> set ''0123456789''" by (rule str_nat_digits)
  show "hd (str_nat n) \<noteq> CHR ''0''" if "n \<noteq> 0" using that by (rule str_nat_no_leading_zero)
  show "i = j" if "str_nat i = str_nat j" using that by (rule str_nat_inj)
qed

lemma str_nat_small:
  "str_nat 0 = ''0''" "str_nat (Suc 0) = ''1''" "str_nat 2 = ''2''" "str_nat 3 = ''3''"
  by (subst str_nat.simps, simp add: digit_char_def)+

theorem filter_graph_pairs_witness:
  "example_keeps \<noteq> []
   \<and> filter_complex example_fmt example_keeps =
       ''[0:v]trim=start=0.0:end=0.5,setpts=PTS-STARTPTS[v0];''
       @ ''[0:a]atrim=start=0.0:end=0.5,asetpts=PTS-STARTPTS[a0];''
       @ ''[0:v]trim=start=1.5:end=5.5,setpts=PTS-STARTPTS[v1];''
       @ ''[0:a]atrim=start=1.5:end=5.5,asetpts=PTS-STARTPTS[a1];''
       @ ''[0:v]trim=start=9.5:end=10.0,setpts=PTS-STARTPTS[v2];''
       @ ''[0:a]atrim=start=9.5:end=10.0,asetpts=PTS-STARTPTS[a2];''
       @ ''[v0][a0][v1][a1][v2][a2]concat=n=3:v=1:a=1[outv][outa]''
   \<and> decimal (str_nat 3) = 3
   \<and> hd (str_nat 3) \<noteq> CHR ''0''"
proof -
  have ne: "example_keeps \<noteq> []" by (simp add: example_keeps_def)
  have idx: "enumerate 0 example_keeps = [(0, (0, 1/2)), (1, (3/2, 11/2)), (2, (19/2, 10))]"
    "length example_keeps = 3" "[0..<3] = [0, Suc 0, 2]"
    by (simp_all add: example_keeps_def upt_conv_Cons)
  show ?thesis
    using ne filter_graph_pairs[OF ne, of example_fmt 3 0 0]
    by (simp add: idx str_nat_small example_fmt_def)
qed

section \<open>Properties of the dispatch\<close>

lemma collect_results_closed:
  "collect_results subs future order m =
     (\<lambda>i. if i \<in> set order then Some (slot subs future i) else m i)"
proof (induction order arbitrary: m)
  case Nil
  then show ?case by simp
next
  case (Cons idx order)
  show ?case by (auto simp: Cons.IH fun_eq_iff)
qed

lemma collected_closed:
  assumes "completion_order (length subs) order"
  shows "collect_results subs future order Map.empty =
           (\<lambda>i. if i < length subs then Some (slot subs future i) else None)"
  using assms by (auto simp: collect_results_closed completion_order_def)

text \<open>
  With a function bound to the name, the loop of lines 233 to 239 does what its \<open>except\<close>
  branch is written for: a task that raises or returns nothing leaves the original text
  with the flag off, and every position gets a result.
\<close>

lemma fallback_when_bound:
  assumes "completion_order (length subs) order"
    and "idx < length subs"
    and "future idx = Raises \<or> future idx = Returns None"
  shows "collect_results subs future order Map.empty idx =
           Some \<lparr>output_text = content (subs ! idx), should_merge_next = False\<rparr>
         \<and> dom (collect_results subs future order Map.empty) = {0..<length subs}"
proof -
  have "slot subs future idx = original_sentence subs idx"
    using assms(3) by (auto simp: slot_def)
  then show ?thesis
    using assms(2) collected_closed[OF assms(1), of future]
    by (auto simp: original_sentence_def dom_def)
qed

text \<open>
  C5 does not hold of the code. With the module as it is, the dispatch stores no result
  and fails as a whole for every file that has a subtitle: the name
  \<open>process_single_subtitle\<close> has no binding, and line 229 raises before any task exists.
\<close>

theorem dispatch_raises_name_error:
  "refine_results example_lines process_single_subtitle [2, 0, 1] = Inl NameError
   \<and> ai_refine_subtitles example_lines process_single_subtitle [2, 0, 1] = Inl NameError"
  by (simp add: refine_results_def ai_refine_subtitles_def process_single_subtitle_def
        example_lines_def)

text \<open>
  C7. Two completion orders of the tasks of the same lines, with the same outcome of each
  task, give the same results, the same state of the lines after the reassembly and the
  same returned list; and whatever is bound to the name of the task, or nothing, the
  dispatch and the whole pass give the same in both orders.
\<close>

theorem completion_order_irrelevant:
  assumes "completion_order (length subs) order1"
    and "completion_order (length subs) order2"
  shows "collect_results subs future order1 Map.empty = collect_results subs future order2 Map.empty
         \<and> reassemble subs (collect_results subs future order1 Map.empty)
             = reassemble subs (collect_results subs future order2 Map.empty)
         \<and> refine_results subs binding order1 = refine_results subs binding order2
         \<and> ai_refine_subtitles subs binding order1 = ai_refine_subtitles subs binding order2"
proof -
  have same: "collect_results subs f order1 Map.empty = collect_results subs f order2 Map.empty"
    for f
    by (simp add: collected_closed[OF assms(1)] collected_closed[OF assms(2)])
  have "refine_results subs binding order1 = refine_results subs binding order2"
  proof (cases binding)
    case None
    then show ?thesis by (simp add: refine_results_def)
  next
    case (Some f)
    then show ?thesis using same[of f] by (simp add: refine_results_def)
  qed
  then show ?thesis using same by (simp add: ai_refine_subtitles_def)
qed

theorem completion_order_irrelevant_witness:
  "completion_order (length example_lines) [2, 0, 1]
   \<and> completion_order (length example_lines) [0, 1, 2]
   \<and> collect_results example_lines (\<lambda>i. Returns (example_results i)) [2, 0, 1] Map.empty
       = collect_results example_lines (\<lambda>i. Returns (example_results i)) [0, 1, 2] Map.empty
   \<and> reassemble example_lines
         (collect_results example_lines (\<lambda>i. Returns (example_results i)) [2, 0, 1] Map.empty)
       = reassemble example_lines
           (collect_results example_lines (\<lambda>i. Returns (example_results i)) [0, 1, 2] Map.empty)
   \<and> refine_results example_lines (Some (\<lambda>i. Returns (example_results i))) [2, 0, 1]
       = refine_results example_lines (Some (\<lambda>i. Returns (example_results i))) [0, 1, 2]
   \<and> ai_refine_subtitles example_lines (Some (\<lambda>i. Returns (example_results i))) [2, 0, 1]
       = ai_refine_subtitles example_lines (Some (\<lambda>i. Returns (example_results i))) [0, 1, 2]"
proof -
  have c: "completion_order (length example_lines) [2, 0, 1]"
    "completion_order (length example_lines) [0, 1, 2]"
    by (auto simp: completion_order_def example_lines_def)
  show ?thesis
    using c completion_order_irrelevant[OF c, of "\<lambda>i. Returns (example_results i)"
        "Some (\<lambda>i. Returns (example_results i))"]
    by simp
qed

section \<open>Properties of the reassembly\<close>

lemma loop_body_final: "final_subtitles (loop_body results j st) = final_subtitles st"
  by (simp add: loop_body_def Let_def split: option.splits)

lemma loop_body_length: "length (subtitles (loop_body results j st)) = length (subtitles st)"
  by (simp add: loop_body_def Let_def split: option.splits)

lemma loop_body_other:
  "k \<noteq> j \<Longrightarrow> subtitles (loop_body results j st) ! k = subtitles st ! k"
  by (simp add: loop_body_def Let_def split: option.splits)

lemma loop_body_skip:
  "k \<noteq> Suc j \<Longrightarrow> k \<in> skip_indices (loop_body results j st) \<longleftrightarrow> k \<in> skip_indices st"
  by (simp add: loop_body_def Let_def split: option.splits)

lemma loop_body_skip_mono:
  "k \<in> skip_indices st \<Longrightarrow> k \<in> skip_indices (loop_body results j st)"
  by (simp add: loop_body_def Let_def split: option.splits)

lemma fold_final:
  "final_subtitles (fold (loop_body results) js st) = final_subtitles st"
  by (induction js arbitrary: st) (simp_all add: loop_body_final)

lemma fold_length:
  "length (subtitles (fold (loop_body results) js st)) = length (subtitles st)"
  by (induction js arbitrary: st) (simp_all add: loop_body_length)

lemma fold_other:
  "k \<notin> set js \<Longrightarrow> subtitles (fold (loop_body results) js st) ! k = subtitles st ! k"
  by (induction js arbitrary: st) (simp_all add: loop_body_other)

lemma fold_skip:
  "k \<notin> Suc ` set js \<Longrightarrow>
     k \<in> skip_indices (fold (loop_body results) js st) \<longleftrightarrow> k \<in> skip_indices st"
  by (induction js arbitrary: st) (auto simp: loop_body_skip)

lemma reassemble_final: "final_subtitles (reassemble subs results) = []"
  by (simp add: reassemble_def fold_final)

lemma sorted_indices_split:
  assumes "i < n" and "results i \<noteq> None"
  shows "sorted_indices n results =
           filter (\<lambda>j. results j \<noteq> None) [0..<i] @ i # filter (\<lambda>j. results j \<noteq> None) [Suc i..<n]"
proof -
  have "[0..<n] = [0..<i] @ i # [Suc i..<n]"
    using assms(1) by (metis upt_conv_Cons upt_add_eq_append le_add_diff_inverse less_imp_le zero_le)
  then show ?thesis using assms(2) by (simp add: sorted_indices_def)
qed

text \<open>The body at a position that is not skipped and whose result asks for a merge.\<close>

lemma loop_body_merge:
  assumes "i \<notin> skip_indices st" and "results i = Some cur" and "results (Suc i) = Some nxt"
    and "should_merge_next cur" and "Suc i < length (subtitles st)"
  shows "loop_body results i st =
           (if length (output_text cur @ output_text nxt) \<le> 30
            then st\<lparr>subtitles := (subtitles st)
                        [i := (subtitles st ! i)\<lparr>content := output_text cur @ output_text nxt,
                                                  end_time := end_time (subtitles st ! Suc i)\<rparr>],
                    skip_indices := insert (Suc i) (skip_indices st)\<rparr>
            else st\<lparr>subtitles := (subtitles st)[i := (subtitles st ! i)\<lparr>content := output_text cur\<rparr>]\<rparr>)"
  using assms by (simp add: loop_body_def Let_def)

lemma loop_body_prefix:
  assumes "j \<notin> skip_indices st" and "results j = Some d" and "j < length (subtitles st)"
  shows "\<exists>more. content (subtitles (loop_body results j st) ! j) = output_text d @ more"
  using assms by (simp add: loop_body_def Let_def split: option.splits)


lemma loop_body_index:
  "k < length (subtitles st) \<Longrightarrow>
     index (subtitles (loop_body results j st) ! k) = index (subtitles st ! k)
     \<and> start (subtitles (loop_body results j st) ! k) = start (subtitles st ! k)"
  by (cases "k = j") (simp_all add: loop_body_def Let_def split: option.splits)

text \<open>
  What the loop does to the lines it updates in place, for two adjacent positions with
  results, the first asking for a merge and not consumed by a merge itself: with at most
  30 characters together, line \<open>i\<close> gets the concatenation and the end of line \<open>i + 1\<close>, and
  position \<open>i + 1\<close> is skipped; with more, both lines keep their own result texts.
\<close>

lemma merge_in_place:
  assumes n: "Suc i < length subs"
    and cur: "results i = Some cur"
    and nxt: "results (Suc i) = Some nxt"
    and flag: "should_merge_next cur"
    and free: "i \<notin> skip_indices (reassemble subs results)"
  shows "if length (output_text cur @ output_text nxt) \<le> 30
         then subtitles (reassemble subs results) ! i
                = (subs ! i)\<lparr>content := output_text cur @ output_text nxt,
                             end_time := end_time (subs ! Suc i)\<rparr>
              \<and> Suc i \<in> skip_indices (reassemble subs results)
         else subtitles (reassemble subs results) ! i = (subs ! i)\<lparr>content := output_text cur\<rparr>
              \<and> Suc i \<notin> skip_indices (reassemble subs results)
              \<and> index (subtitles (reassemble subs results) ! Suc i) = index (subs ! Suc i)
              \<and> start (subtitles (reassemble subs results) ! Suc i) = start (subs ! Suc i)
              \<and> (\<exists>more. content (subtitles (reassemble subs results) ! Suc i)
                           = output_text nxt @ more)"
proof -
  let ?P = "\<lambda>j. results j \<noteq> None"
  let ?st0 = "\<lparr>subtitles = subs, skip_indices = {}, final_subtitles = []\<rparr>"
  let ?js1 = "filter ?P [0..<i]"
  let ?js2 = "filter ?P [Suc (Suc i)..<length subs]"
  let ?st1 = "fold (loop_body results) ?js1 ?st0"
  let ?st2 = "loop_body results i ?st1"
  let ?st3 = "loop_body results (Suc i) ?st2"
  let ?st4 = "fold (loop_body results) ?js2 ?st3"
  have "sorted_indices (length subs) results = ?js1 @ i # filter ?P [Suc i..<length subs]"
    using sorted_indices_split[of i "length subs" results] n cur by simp
  moreover have "filter ?P [Suc i..<length subs] = Suc i # ?js2"
    using n nxt by (simp add: upt_conv_Cons)
  ultimately have keys: "sorted_indices (length subs) results = ?js1 @ i # Suc i # ?js2"
    by simp
  have whole: "reassemble subs results = ?st4"
    by (simp add: reassemble_def keys)
  have len1: "length (subtitles ?st1) = length subs"
    using fold_length[of results ?js1 ?st0] by simp
  have len2: "length (subtitles ?st2) = length subs"
    using loop_body_length[of results i ?st1] len1 by simp
  have line1: "subtitles ?st1 ! i = subs ! i" "subtitles ?st1 ! Suc i = subs ! Suc i"
    using fold_other[of i ?js1 results ?st0] fold_other[of "Suc i" ?js1 results ?st0]
    by simp_all
  have "Suc i \<notin> Suc ` set ?js1" by auto
  then have skip1: "Suc i \<notin> skip_indices ?st1"
    using fold_skip[of "Suc i" ?js1 results ?st0] by simp
  have free4: "i \<notin> skip_indices ?st4" using free whole by simp
  have "i \<notin> Suc ` set ?js2" by auto
  then have free3: "i \<notin> skip_indices ?st3" using free4 fold_skip by blast
  then have free2: "i \<notin> skip_indices ?st2" using loop_body_skip_mono by blast
  then have free1: "i \<notin> skip_indices ?st1" using loop_body_skip_mono by blast
  have body: "?st2 =
           (if length (output_text cur @ output_text nxt) \<le> 30
            then ?st1\<lparr>subtitles := (subtitles ?st1)
                        [i := (subtitles ?st1 ! i)\<lparr>content := output_text cur @ output_text nxt,
                                                  end_time := end_time (subtitles ?st1 ! Suc i)\<rparr>],
                    skip_indices := insert (Suc i) (skip_indices ?st1)\<rparr>
            else ?st1\<lparr>subtitles := (subtitles ?st1)[i := (subtitles ?st1 ! i)\<lparr>content := output_text cur\<rparr>]\<rparr>)"
    using loop_body_merge[of i ?st1 results cur nxt] free1 cur nxt flag n len1 by simp
  have "i \<notin> set ?js2" by simp
  then have at_i: "subtitles ?st4 ! i = subtitles ?st2 ! i"
    using fold_other[of i ?js2 results ?st3] loop_body_other[of i "Suc i" results ?st2]
    by simp
  have skip_later: "Suc i \<in> skip_indices ?st4 \<longleftrightarrow> Suc i \<in> skip_indices ?st2"
  proof -
    have "Suc i \<notin> Suc ` set ?js2" by auto
    then have "Suc i \<in> skip_indices ?st4 \<longleftrightarrow> Suc i \<in> skip_indices ?st3"
      using fold_skip by blast
    then show ?thesis using loop_body_skip[of "Suc i" "Suc i" results ?st2] by simp
  qed
  show ?thesis
  proof (cases "length (output_text cur @ output_text nxt) \<le> 30")
    case True
    then have "subtitles ?st2 ! i = (subs ! i)\<lparr>content := output_text cur @ output_text nxt,
                             end_time := end_time (subs ! Suc i)\<rparr>"
      and "Suc i \<in> skip_indices ?st2"
      using body n len1 line1 by simp_all
    then show ?thesis using True at_i skip_later whole by simp
  next
    case False
    then have l2: "subtitles ?st2 ! i = (subs ! i)\<lparr>content := output_text cur\<rparr>"
      and s2: "Suc i \<notin> skip_indices ?st2"
      and n2: "subtitles ?st2 ! Suc i = subs ! Suc i"
      using body n len1 line1 skip1 by simp_all
    have "Suc i \<notin> set ?js2" by simp
    then have at_next: "subtitles ?st4 ! Suc i = subtitles ?st3 ! Suc i"
      using fold_other[of "Suc i" ?js2 results ?st3] by simp
    have "index (subtitles ?st3 ! Suc i) = index (subs ! Suc i)
          \<and> start (subtitles ?st3 ! Suc i) = start (subs ! Suc i)"
      using loop_body_index[of "Suc i" ?st2 results "Suc i"] n len2 n2 by simp
    moreover have "\<exists>more. content (subtitles ?st3 ! Suc i) = output_text nxt @ more"
      using loop_body_prefix[of "Suc i" ?st2 results nxt] s2 nxt n len2 by simp
    ultimately show ?thesis using False l2 s2 at_i at_next skip_later whole by simp
  qed
qed

lemma refine_returns_nothing:
  "ai_refine_subtitles subs (Some future) order = (if subs = [] then Inr None else Inr (Some []))"
  by (simp add: ai_refine_subtitles_def refine_results_def reassemble_final)

text \<open>
  C2 does not hold of the code. The loop never appends to \<open>final_subtitles\<close>, so with a
  function bound to the name of the task the list returned is empty for every input: here
  for three lines, where the claim asks for the two lines that no merge consumed. With
  the module as it is, nothing is returned at all.
\<close>

theorem refined_example_is_empty:
  "ai_refine_subtitles example_lines (Some (\<lambda>i. Returns (example_results i))) [2, 0, 1]
     = Inr (Some [])
   \<and> ai_refine_subtitles example_lines process_single_subtitle [2, 0, 1] = Inl NameError"
  by (simp add: refine_returns_nothing)
    (simp add: ai_refine_subtitles_def refine_results_def process_single_subtitle_def
       example_lines_def)

text \<open>
  C3 does not hold of the code. For two adjacent lines whose results \<open>a\<close> and \<open>b\<close> ask for
  a merge, the loop does merge in place (the first line gets the text \<open>ab\<close> and the end of
  the second, which is skipped), but the merged line is never appended: the list returned
  is empty, not one line. With results of 16 and 15 characters the two lines get their
  own texts in place, and the list returned is empty again, not two lines. With the module
  as it is, the pass raises before the loop.
\<close>

theorem merged_line_is_not_returned:
  "reassemble two_lines
       (collect_results two_lines (\<lambda>i. Returns (example_results i)) [1, 0] Map.empty)
     = \<lparr>subtitles =
          [\<lparr>index = 1, start = 0, end_time = 2000000, content = [97, 98], proprietary = []\<rparr>,
           \<lparr>index = 2, start = 1000000, end_time = 2000000, content = [121], proprietary = []\<rparr>],
        skip_indices = {1}, final_subtitles = []\<rparr>
   \<and> ai_refine_subtitles two_lines (Some (\<lambda>i. Returns (example_results i))) [1, 0]
       = Inr (Some [])
   \<and> reassemble two_lines
         (collect_results two_lines (\<lambda>i. Returns (long_results i)) [1, 0] Map.empty)
       = \<lparr>subtitles =
            [\<lparr>index = 1, start = 0, end_time = 1000000, content = replicate 16 97,
               proprietary = []\<rparr>,
             \<lparr>index = 2, start = 1000000, end_time = 2000000, content = replicate 15 98,
               proprietary = []\<rparr>],
          skip_indices = {}, final_subtitles = []\<rparr>
   \<and> ai_refine_subtitles two_lines (Some (\<lambda>i. Returns (long_results i))) [1, 0]
       = Inr (Some [])
   \<and> ai_refine_subtitles two_lines process_single_subtitle [1, 0] = Inl NameError"
proof (intro conjI)
  show "reassemble two_lines
       (collect_results two_lines (\<lambda>i. Returns (example_results i)) [1, 0] Map.empty)
     = \<lparr>subtitles =
          [\<lparr>index = 1, start = 0, end_time = 2000000, content = [97, 98], proprietary = []\<rparr>,
           \<lparr>index = 2, start = 1000000, end_time = 2000000, content = [121], proprietary = []\<rparr>],
        skip_indices = {1}, final_subtitles = []\<rparr>"
    by (simp add: reassemble_def sorted_indices_def loop_body_def slot_def two_lines_def
          example_results_def Let_def)
  show "reassemble two_lines
         (collect_results two_lines (\<lambda>i. Returns (long_results i)) [1, 0] Map.empty)
       = \<lparr>subtitles =
            [\<lparr>index = 1, start = 0, end_time = 1000000, content = replicate 16 97,
               proprietary = []\<rparr>,
             \<lparr>index = 2, start = 1000000, end_time = 2000000, content = replicate 15 98,
               proprietary = []\<rparr>],
          skip_indices = {}, final_subtitles = []\<rparr>"
    by (simp add: reassemble_def sorted_indices_def loop_body_def slot_def two_lines_def
          long_results_def Let_def)
  show "ai_refine_subtitles two_lines (Some (\<lambda>i. Returns (example_results i))) [1, 0]
       = Inr (Some [])"
    by (simp add: refine_returns_nothing two_lines_def)
  show "ai_refine_subtitles two_lines (Some (\<lambda>i. Returns (long_results i))) [1, 0]
       = Inr (Some [])"
    by (simp add: refine_returns_nothing two_lines_def)
  show "ai_refine_subtitles two_lines process_single_subtitle [1, 0] = Inl NameError"
    by (simp add: ai_refine_subtitles_def refine_results_def process_single_subtitle_def
          two_lines_def)
qed

section \<open>Properties of the review in chunks\<close>


lemma target_Some:
  "target idx chunk = Some k \<longleftrightarrow>
     k < length chunk \<and> index (chunk ! k) = idx \<and> (\<forall>j<k. index (chunk ! j) \<noteq> idx)"
proof (induction chunk arbitrary: k)
  case Nil
  then show ?case by simp
next
  case (Cons s chunk)
  show ?case
  proof (cases "index s = idx")
    case True
    then show ?thesis by (cases k) auto
  next
    case False
    show ?thesis
    proof (cases k)
      case 0
      then show ?thesis using False by auto
    next
      case (Suc k')
      have "(\<forall>j<Suc k'. index ((s # chunk) ! j) \<noteq> idx) \<longleftrightarrow> (\<forall>j<k'. index (chunk ! j) \<noteq> idx)"
        using False by (auto simp: less_Suc_eq_0_disj)
      then show ?thesis using False Suc Cons.IH[of k'] by auto
    qed
  qed
qed

lemma apply_correction_frame:
  assumes "apply_correction c (chunk, n) = (chunk', n')"
  shows "length chunk' = length chunk \<and> map index chunk' = map index chunk
         \<and> map start chunk' = map start chunk \<and> map end_time chunk' = map end_time chunk
         \<and> map proprietary chunk' = map proprietary chunk"
proof (cases "target (corr_index c) chunk")
  case None
  then show ?thesis using assms by (simp add: apply_correction_def)
next
  case (Some k)
  then have k: "k < length chunk" by (simp add: target_Some)
  then show ?thesis
    using assms Some
    by (auto simp: apply_correction_def map_update list_update_same_conv split: if_splits)
qed

lemma apply_correction_untouched:
  assumes "apply_correction c (chunk, n) = (chunk', n')"
    and "k < length chunk"
    and "corr_index c \<noteq> index (chunk ! k) \<or> corr_content c = content (chunk ! k)"
  shows "chunk' ! k = chunk ! k"
proof (cases "target (corr_index c) chunk")
  case None
  then show ?thesis using assms by (simp add: apply_correction_def)
next
  case (Some j)
  show ?thesis
  proof (cases "j = k")
    case True
    then have "index (chunk ! k) = corr_index c" using Some by (simp add: target_Some)
    then have "corr_content c = content (chunk ! k)" using assms(3) by auto
    then show ?thesis using assms(1) Some True by (simp add: apply_correction_def)
  next
    case False
    then show ?thesis using assms(1) Some by (auto simp: apply_correction_def split: if_splits)
  qed
qed

lemma fold_corrections_frame:
  assumes "fold apply_correction cs (chunk, n) = (chunk', n')"
  shows "length chunk' = length chunk \<and> map index chunk' = map index chunk
         \<and> map start chunk' = map start chunk \<and> map end_time chunk' = map end_time chunk
         \<and> map proprietary chunk' = map proprietary chunk"
  using assms
proof (induction cs arbitrary: chunk n)
  case Nil
  then show ?case by simp
next
  case (Cons c cs)
  obtain chunk1 n1 where s: "apply_correction c (chunk, n) = (chunk1, n1)"
    by (cases "apply_correction c (chunk, n)")
  then have "fold apply_correction cs (chunk1, n1) = (chunk', n')" using Cons.prems by simp
  from Cons.IH[OF this] apply_correction_frame[OF s] show ?case by simp
qed

lemma fold_corrections_untouched:
  assumes "fold apply_correction cs (chunk, n) = (chunk', n')"
    and "k < length chunk"
    and "\<forall>c\<in>set cs. corr_index c \<noteq> index (chunk ! k) \<or> corr_content c = content (chunk ! k)"
  shows "chunk' ! k = chunk ! k"
  using assms
proof (induction cs arbitrary: chunk n)
  case Nil
  then show ?case by simp
next
  case (Cons c cs)
  obtain chunk1 n1 where s: "apply_correction c (chunk, n) = (chunk1, n1)"
    by (cases "apply_correction c (chunk, n)")
  then have f: "fold apply_correction cs (chunk1, n1) = (chunk', n')" using Cons.prems by simp
  have same: "chunk1 ! k = chunk ! k"
    using apply_correction_untouched[OF s Cons.prems(2)] Cons.prems(3) by simp
  have len: "k < length chunk1" using apply_correction_frame[OF s] Cons.prems(2) by simp
  have "\<forall>c\<in>set cs. corr_index c \<noteq> index (chunk1 ! k) \<or> corr_content c = content (chunk1 ! k)"
    using Cons.prems(3) same by simp
  from Cons.IH[OF f len this] same show ?case by simp
qed

lemma corrected_chunk_untouched:
  assumes "k < length chunk"
    and "\<And>cs. source i chunk = Some cs \<Longrightarrow>
           \<forall>c\<in>set cs. corr_index c \<noteq> index (chunk ! k) \<or> corr_content c = content (chunk ! k)"
  shows "corrected_chunk source i chunk ! k = chunk ! k"
proof (cases "source i chunk")
  case None
  then show ?thesis by (simp add: corrected_chunk_def)
next
  case (Some cs)
  obtain chunk' n' where f: "fold apply_correction cs (chunk, 0) = (chunk', n')"
    by (cases "fold apply_correction cs (chunk, 0)")
  from fold_corrections_untouched[OF f assms(1) assms(2)[OF Some]] f Some
  show ?thesis by (simp add: corrected_chunk_def)
qed

lemma corrected_chunk_frame:
  "length (corrected_chunk source i chunk) = length chunk
   \<and> map index (corrected_chunk source i chunk) = map index chunk
   \<and> map start (corrected_chunk source i chunk) = map start chunk
   \<and> map end_time (corrected_chunk source i chunk) = map end_time chunk
   \<and> map proprietary (corrected_chunk source i chunk) = map proprietary chunk"
proof (cases "source i chunk")
  case None
  then show ?thesis by (simp add: corrected_chunk_def)
next
  case (Some cs)
  obtain chunk' n' where f: "fold apply_correction cs (chunk, 0) = (chunk', n')"
    by (cases "fold apply_correction cs (chunk, 0)")
  then show ?thesis using fold_corrections_frame[OF f] Some by (simp add: corrected_chunk_def)
qed

lemma slices: "take i xs @ take c (drop i xs) @ drop (i + c) xs = xs"
  by (metis append_take_drop_id drop_drop add.commute)

lemma review_chunk_map:
  assumes "map f (corrected_chunk source i (take CHUNK_SIZE (drop i subs)))
             = map f (take CHUNK_SIZE (drop i subs))"
  shows "map f (review_chunk source i subs) = map f subs"
proof -
  have "map f (review_chunk source i subs)
          = map f (take i subs @ take CHUNK_SIZE (drop i subs) @ drop (i + CHUNK_SIZE) subs)"
    using assms by (simp add: review_chunk_def Let_def)
  then show ?thesis by (simp only: slices)
qed

lemma review_chunk_frame:
  "length (review_chunk source i subs) = length subs
   \<and> map index (review_chunk source i subs) = map index subs
   \<and> map start (review_chunk source i subs) = map start subs
   \<and> map end_time (review_chunk source i subs) = map end_time subs
   \<and> map proprietary (review_chunk source i subs) = map proprietary subs"
proof -
  note c = corrected_chunk_frame[of source i "take CHUNK_SIZE (drop i subs)"]
  have i: "map index (review_chunk source i subs) = map index subs"
    using c by (intro review_chunk_map) simp
  have "length (map index (review_chunk source i subs)) = length (map index subs)"
    by (simp only: i)
  then have "length (review_chunk source i subs) = length subs" by simp
  moreover have "map start (review_chunk source i subs) = map start subs"
    using c by (intro review_chunk_map) simp
  moreover have "map end_time (review_chunk source i subs) = map end_time subs"
    using c by (intro review_chunk_map) simp
  moreover have "map proprietary (review_chunk source i subs) = map proprietary subs"
    using c by (intro review_chunk_map) simp
  ultimately show ?thesis using i by simp
qed

lemma review_chunk_outside:
  assumes "k < length subs" and "k < i \<or> i + CHUNK_SIZE \<le> k"
  shows "review_chunk source i subs ! k = subs ! k"
proof -
  let ?cc = "corrected_chunk source i (take CHUNK_SIZE (drop i subs))"
  have len: "length ?cc = min CHUNK_SIZE (length subs - i)"
    using corrected_chunk_frame[of source i "take CHUNK_SIZE (drop i subs)"] by simp
  from assms(2) show ?thesis
  proof
    assume "k < i"
    then show ?thesis using assms(1) by (simp add: review_chunk_def Let_def nth_append)
  next
    assume far: "i + CHUNK_SIZE \<le> k"
    then have "length (take i subs) = i" "length ?cc = CHUNK_SIZE"
      using assms(1) len by simp_all
    then have "(take i subs @ ?cc @ drop (i + CHUNK_SIZE) subs) ! k
                 = drop (i + CHUNK_SIZE) subs ! (k - (i + CHUNK_SIZE))"
      using far by (simp add: nth_append)
    then show ?thesis using far assms(1) by (simp add: review_chunk_def Let_def)
  qed
qed

lemma review_chunk_inside:
  assumes "i \<le> length subs"
  shows "take CHUNK_SIZE (drop i (review_chunk source i subs))
           = corrected_chunk source i (take CHUNK_SIZE (drop i subs))"
proof -
  let ?cc = "corrected_chunk source i (take CHUNK_SIZE (drop i subs))"
  have len: "length ?cc = min CHUNK_SIZE (length subs - i)"
    using corrected_chunk_frame[of source i "take CHUNK_SIZE (drop i subs)"] by simp
  have "drop i (review_chunk source i subs) = ?cc @ drop (i + CHUNK_SIZE) subs"
    using assms by (simp add: review_chunk_def Let_def)
  moreover have "take CHUNK_SIZE (?cc @ drop (i + CHUNK_SIZE) subs) = ?cc"
  proof (cases "i + CHUNK_SIZE \<le> length subs")
    case True
    then have "length ?cc = CHUNK_SIZE" using len by simp
    then show ?thesis by simp
  next
    case False
    then have "drop (i + CHUNK_SIZE) subs = []" by simp
    then show ?thesis using len by simp
  qed
  ultimately show ?thesis by simp
qed

lemma slice_cong:
  assumes "length xs = length ys"
    and "\<And>k. a \<le> k \<Longrightarrow> k < a + c \<Longrightarrow> k < length xs \<Longrightarrow> xs ! k = ys ! k"
  shows "take c (drop a xs) = take c (drop a ys)"
proof (rule nth_equalityI)
  show "length (take c (drop a xs)) = length (take c (drop a ys))"
    using assms(1) by simp
next
  fix k assume "k < length (take c (drop a xs))"
  then have k: "k < c" "a + k < length xs" by auto
  then have "xs ! (a + k) = ys ! (a + k)" using assms(2)[of "a + k"] by simp
  then show "take c (drop a xs) ! k = take c (drop a ys) ! k"
    using k assms(1) by simp
qed

text \<open>The state after the first \<open>m\<close> chunks.\<close>

lemma chunks_invariant:
  assumes "m * CHUNK_SIZE < length subs + CHUNK_SIZE"
  shows "length (fold (review_chunk source) (map (\<lambda>k. k * CHUNK_SIZE) [0..<m]) subs) = length subs
    \<and> (\<forall>k<length subs. m * CHUNK_SIZE \<le> k \<longrightarrow>
          fold (review_chunk source) (map (\<lambda>k. k * CHUNK_SIZE) [0..<m]) subs ! k = subs ! k)
    \<and> (\<forall>j<m. take CHUNK_SIZE (drop (j * CHUNK_SIZE)
                  (fold (review_chunk source) (map (\<lambda>k. k * CHUNK_SIZE) [0..<m]) subs))
              = corrected_chunk source (j * CHUNK_SIZE)
                  (take CHUNK_SIZE (drop (j * CHUNK_SIZE) subs)))"
  using assms
proof (induction m)
  case 0
  then show ?case by simp
next
  case (Suc m)
  let ?st = "fold (review_chunk source) (map (\<lambda>k. k * CHUNK_SIZE) [0..<m]) subs"
  let ?st' = "review_chunk source (m * CHUNK_SIZE) ?st"
  have bound: "m * CHUNK_SIZE < length subs" using Suc.prems by simp
  then have ih: "length ?st = length subs"
    "\<And>k. k < length subs \<Longrightarrow> m * CHUNK_SIZE \<le> k \<Longrightarrow> ?st ! k = subs ! k"
    "\<And>j. j < m \<Longrightarrow> take CHUNK_SIZE (drop (j * CHUNK_SIZE) ?st)
              = corrected_chunk source (j * CHUNK_SIZE)
                  (take CHUNK_SIZE (drop (j * CHUNK_SIZE) subs))"
    using Suc.IH by simp_all
  have unfold: "fold (review_chunk source) (map (\<lambda>k. k * CHUNK_SIZE) [0..<Suc m]) subs = ?st'"
    by simp
  have len: "length ?st' = length subs"
    using review_chunk_frame[of source "m * CHUNK_SIZE" ?st] ih(1) by simp
  have later: "?st' ! k = subs ! k" if "k < length subs" "Suc m * CHUNK_SIZE \<le> k" for k
  proof -
    have "?st' ! k = ?st ! k"
      using that ih(1) by (intro review_chunk_outside) simp_all
    then show ?thesis using that ih(2)[of k] by simp
  qed
  have earlier: "take CHUNK_SIZE (drop (j * CHUNK_SIZE) ?st')
              = corrected_chunk source (j * CHUNK_SIZE)
                  (take CHUNK_SIZE (drop (j * CHUNK_SIZE) subs))" if "j < Suc m" for j
  proof (cases "j = m")
    case True
    have "take CHUNK_SIZE (drop (m * CHUNK_SIZE) ?st)
            = take CHUNK_SIZE (drop (m * CHUNK_SIZE) subs)"
      using ih(1) ih(2) by (intro slice_cong) simp_all
    moreover have "take CHUNK_SIZE (drop (m * CHUNK_SIZE) ?st')
            = corrected_chunk source (m * CHUNK_SIZE)
                (take CHUNK_SIZE (drop (m * CHUNK_SIZE) ?st))"
      using bound ih(1) by (intro review_chunk_inside) simp
    ultimately show ?thesis using True by simp
  next
    case False
    then have jm: "j < m" using that by simp
    then have "Suc j \<le> m" by simp
    then have "Suc j * CHUNK_SIZE \<le> m * CHUNK_SIZE" by (rule mult_le_mono1)
    then have le: "j * CHUNK_SIZE + CHUNK_SIZE \<le> m * CHUNK_SIZE" by simp
    have "take CHUNK_SIZE (drop (j * CHUNK_SIZE) ?st')
            = take CHUNK_SIZE (drop (j * CHUNK_SIZE) ?st)"
    proof (rule slice_cong)
      show "length ?st' = length ?st" using len ih(1) by simp
    next
      fix k assume "j * CHUNK_SIZE \<le> k" "k < j * CHUNK_SIZE + CHUNK_SIZE" "k < length ?st'"
      then have "k < length ?st" "k < m * CHUNK_SIZE" using le len ih(1) by simp_all
      then show "?st' ! k = ?st ! k" by (intro review_chunk_outside) simp_all
    qed
    then show ?thesis using ih(3)[OF jm] by simp
  qed
  show ?case unfolding unfold using len later earlier by blast
qed

lemma chunk_starts_bound:
  "m \<le> (n + CHUNK_SIZE - 1) div CHUNK_SIZE \<Longrightarrow> m * CHUNK_SIZE < n + CHUNK_SIZE"
  unfolding CHUNK_SIZE_def by arith

lemma chunk_of_position:
  "k < n \<Longrightarrow> k div CHUNK_SIZE < (n + CHUNK_SIZE - 1) div CHUNK_SIZE"
  unfolding CHUNK_SIZE_def by arith

lemma every_chunk_reviewed:
  assumes "j \<in> set (chunk_starts (length subs))"
  shows "take CHUNK_SIZE (drop j (ai_review_chunks source subs))
           = corrected_chunk source j (take CHUNK_SIZE (drop j subs))"
proof -
  let ?m = "(length subs + CHUNK_SIZE - 1) div CHUNK_SIZE"
  obtain q where q: "q < ?m" "j = q * CHUNK_SIZE"
    using assms by (auto simp: chunk_starts_def)
  have "?m * CHUNK_SIZE < length subs + CHUNK_SIZE"
    by (rule chunk_starts_bound) simp
  from chunks_invariant[OF this, of source] q show ?thesis
    by (simp add: ai_review_chunks_def chunk_starts_def)
qed

lemma fold_review_frame:
  "length (fold (review_chunk source) js subs) = length subs
   \<and> map index (fold (review_chunk source) js subs) = map index subs
   \<and> map start (fold (review_chunk source) js subs) = map start subs
   \<and> map end_time (fold (review_chunk source) js subs) = map end_time subs
   \<and> map proprietary (fold (review_chunk source) js subs) = map proprietary subs"
proof (induction js arbitrary: subs)
  case Nil
  then show ?case by simp
next
  case (Cons j js)
  show ?case using Cons.IH[of "review_chunk source j subs"] review_chunk_frame[of source j subs]
    by simp
qed



text \<open>
  C9. The review keeps the number of lines and, position by position, the index, the
  start, the end and the proprietary string of every line. Every chunk ends as the review
  of its own original lines, whatever happened to the chunks before it; so when the
  request of a chunk fails, the lines of that chunk are unchanged and the later chunks
  are still reviewed. A line is unchanged unless a correction returned for its own chunk
  names its index with a text other than its own.
\<close>

theorem review_changes_text_only:
  "length (ai_review_chunks source subs) = length subs
   \<and> map index (ai_review_chunks source subs) = map index subs
   \<and> map start (ai_review_chunks source subs) = map start subs
   \<and> map end_time (ai_review_chunks source subs) = map end_time subs
   \<and> map proprietary (ai_review_chunks source subs) = map proprietary subs
   \<and> (\<forall>j\<in>set (chunk_starts (length subs)).
         take CHUNK_SIZE (drop j (ai_review_chunks source subs))
           = corrected_chunk source j (take CHUNK_SIZE (drop j subs))
         \<and> (source j (take CHUNK_SIZE (drop j subs)) = None \<longrightarrow>
              take CHUNK_SIZE (drop j (ai_review_chunks source subs))
                = take CHUNK_SIZE (drop j subs)))
   \<and> (\<forall>k<length subs.
         (\<forall>cs. source (k div CHUNK_SIZE * CHUNK_SIZE)
                 (take CHUNK_SIZE (drop (k div CHUNK_SIZE * CHUNK_SIZE) subs)) = Some cs \<longrightarrow>
               (\<forall>c\<in>set cs. corr_index c \<noteq> index (subs ! k) \<or> corr_content c = content (subs ! k)))
         \<longrightarrow> ai_review_chunks source subs ! k = subs ! k)"
proof (intro conjI ballI allI impI)
  note frame = fold_review_frame[of source "chunk_starts (length subs)" subs]
  show "length (ai_review_chunks source subs) = length subs"
    using frame by (simp add: ai_review_chunks_def)
  show "map index (ai_review_chunks source subs) = map index subs"
    using frame by (simp add: ai_review_chunks_def)
  show "map start (ai_review_chunks source subs) = map start subs"
    using frame by (simp add: ai_review_chunks_def)
  show "map end_time (ai_review_chunks source subs) = map end_time subs"
    using frame by (simp add: ai_review_chunks_def)
  show "map proprietary (ai_review_chunks source subs) = map proprietary subs"
    using frame by (simp add: ai_review_chunks_def)
next
  fix j assume j: "j \<in> set (chunk_starts (length subs))"
  show "take CHUNK_SIZE (drop j (ai_review_chunks source subs))
           = corrected_chunk source j (take CHUNK_SIZE (drop j subs))"
    by (rule every_chunk_reviewed[OF j])
  assume "source j (take CHUNK_SIZE (drop j subs)) = None"
  then show "take CHUNK_SIZE (drop j (ai_review_chunks source subs)) = take CHUNK_SIZE (drop j subs)"
    using every_chunk_reviewed[OF j, of source] by (simp add: corrected_chunk_def)
next
  fix k
  let ?out = "ai_review_chunks source subs"
  define j where "j = k div CHUNK_SIZE * CHUNK_SIZE"
  define chunk where "chunk = take CHUNK_SIZE (drop j subs)"
  assume k: "k < length subs"
    and "\<forall>cs. source (k div CHUNK_SIZE * CHUNK_SIZE)
                 (take CHUNK_SIZE (drop (k div CHUNK_SIZE * CHUNK_SIZE) subs)) = Some cs \<longrightarrow>
               (\<forall>c\<in>set cs. corr_index c \<noteq> index (subs ! k) \<or> corr_content c = content (subs ! k))"
  then have named: "\<And>cs. source j chunk = Some cs \<Longrightarrow>
               \<forall>c\<in>set cs. corr_index c \<noteq> index (subs ! k) \<or> corr_content c = content (subs ! k)"
    unfolding j_def chunk_def by blast
  have pos: "0 < CHUNK_SIZE" by (simp add: CHUNK_SIZE_def)
  have jk: "j \<le> k" unfolding j_def by simp
  have off: "k - j < CHUNK_SIZE"
    unfolding j_def using pos by (metis minus_div_mult_eq_mod mod_less_divisor)
  have "k div CHUNK_SIZE < (length subs + CHUNK_SIZE - 1) div CHUNK_SIZE"
    using k by (rule chunk_of_position)
  then have j: "j \<in> set (chunk_starts (length subs))"
    unfolding j_def by (auto simp: chunk_starts_def)
  have len: "length ?out = length subs"
    using fold_review_frame[of source "chunk_starts (length subs)" subs]
    by (simp add: ai_review_chunks_def)
  have in_chunk: "k - j < length chunk" unfolding chunk_def using k off jk by simp
  have at: "chunk ! (k - j) = subs ! k" unfolding chunk_def using k off jk by simp
  have "?out ! k = take CHUNK_SIZE (drop j ?out) ! (k - j)"
    using k off jk len by simp
  also have "\<dots> = corrected_chunk source j chunk ! (k - j)"
    unfolding chunk_def by (simp only: every_chunk_reviewed[OF j])
  also have "\<dots> = chunk ! (k - j)"
    using named at by (intro corrected_chunk_untouched[OF in_chunk]) simp
  finally show "?out ! k = subs ! k" using at by simp
qed


lemma many_lines_chunks:
  "length many_lines = 102"
  "chunk_starts 102 = [0, 100]"
  "take CHUNK_SIZE (drop 100 many_lines) =
     [\<lparr>index = 101, start = 100000000, end_time = 101000000, content = [120], proprietary = []\<rparr>,
      \<lparr>index = 102, start = 101000000, end_time = 102000000, content = [120], proprietary = []\<rparr>]"
  by (simp_all add: many_lines_def chunk_starts_def CHUNK_SIZE_def take_map drop_map
        upt_conv_Cons)

theorem review_changes_text_only_witness:
  "length (ai_review_chunks example_source many_lines) = length many_lines
   \<and> map index (ai_review_chunks example_source many_lines) = map index many_lines
   \<and> map start (ai_review_chunks example_source many_lines) = map start many_lines
   \<and> map end_time (ai_review_chunks example_source many_lines) = map end_time many_lines
   \<and> example_source 0 (take CHUNK_SIZE (drop 0 many_lines)) = None
   \<and> take CHUNK_SIZE (drop 0 (ai_review_chunks example_source many_lines))
       = take CHUNK_SIZE (drop 0 many_lines)
   \<and> take CHUNK_SIZE (drop 100 (ai_review_chunks example_source many_lines))
       = [\<lparr>index = 101, start = 100000000, end_time = 101000000, content = [113], proprietary = []\<rparr>,
          \<lparr>index = 102, start = 101000000, end_time = 102000000, content = [120], proprietary = []\<rparr>]
   \<and> ai_review_chunks example_source many_lines ! 101 = many_lines ! 101"
proof -
  note t = review_changes_text_only[of example_source many_lines]
  have s: "0 \<in> set (chunk_starts (length many_lines))"
    "100 \<in> set (chunk_starts (length many_lines))"
    by (simp_all add: many_lines_chunks)
  have f: "example_source 0 (take CHUNK_SIZE (drop 0 many_lines)) = None"
    by (simp add: example_source_def)
  have w0: "take CHUNK_SIZE (drop 0 (ai_review_chunks example_source many_lines))
       = take CHUNK_SIZE (drop 0 many_lines)"
    using t s(1) f by blast
  have "take CHUNK_SIZE (drop 100 (ai_review_chunks example_source many_lines))
       = corrected_chunk example_source 100 (take CHUNK_SIZE (drop 100 many_lines))"
    using t s(2) by blast
  then have w1: "take CHUNK_SIZE (drop 100 (ai_review_chunks example_source many_lines))
       = [\<lparr>index = 101, start = 100000000, end_time = 101000000, content = [113], proprietary = []\<rparr>,
          \<lparr>index = 102, start = 101000000, end_time = 102000000, content = [120], proprietary = []\<rparr>]"
    by (simp add: many_lines_chunks corrected_chunk_def example_source_def apply_correction_def)
  have k: "(101::nat) < length many_lines" "101 div CHUNK_SIZE * CHUNK_SIZE = 100"
    by (simp_all add: many_lines_chunks CHUNK_SIZE_def)
  have i: "index (many_lines ! 101) = 102"
    by (simp add: many_lines_def)
  have "\<forall>cs. example_source (101 div CHUNK_SIZE * CHUNK_SIZE)
                 (take CHUNK_SIZE (drop (101 div CHUNK_SIZE * CHUNK_SIZE) many_lines)) = Some cs \<longrightarrow>
               (\<forall>c\<in>set cs. corr_index c \<noteq> index (many_lines ! 101)
                    \<or> corr_content c = content (many_lines ! 101))"
    by (simp add: k(2) i example_source_def)
  then have w2: "ai_review_chunks example_source many_lines ! 101 = many_lines ! 101"
    using t k(1) by blast
  show ?thesis using t f w0 w1 w2 by simp
qed



end
